theory Spec2Isabelle
  imports Main "HOL-Library.Sublist"
begin

section \<open>JavaScript values and tree traversal\<close>

text \<open>
  The data tree, the configuration and every resolvable are plain JSON-like JavaScript
  values. Numbers are restricted to integers. An object is an association list in the
  enumeration order of \<open>Object.keys\<close>; its keys are meant to be distinct.
\<close>

datatype jv =
    JUndef
  | JNull
  | JBool bool
  | JNum int
  | JStr string
  | JArr "jv list"
  | JObj "(string \<times> jv) list"

text \<open>Errors the engine can raise.\<close>

datatype error = TypeError | CapabilityError

subsection \<open>Strings\<close>

definition digit_char :: "nat \<Rightarrow> char" where
  "digit_char d = ''0123456789'' ! d"

text \<open>\<open>String(i)\<close> for an array index \<open>i\<close>.\<close>

fun string_of_nat :: "nat \<Rightarrow> string" where
  "string_of_nat n =
     (if n < 10 then [digit_char n] else string_of_nat (n div 10) @ [digit_char (n mod 10)])"

declare string_of_nat.simps [simp del]

definition is_digit :: "char \<Rightarrow> bool" where
  "is_digit c = (of_char (CHR ''0'') \<le> (of_char c :: nat) \<and> (of_char c :: nat) \<le> of_char (CHR ''9''))"

text \<open>\<open>s.match(/\d/)\<close> is truthy iff some character of \<open>s\<close> is a decimal digit.\<close>

definition match_digit :: "string \<Rightarrow> bool" where
  "match_digit s = list_ex is_digit s"

text \<open>\<open>s.split(sep)\<close> for a one-character separator.\<close>

fun split_on :: "char \<Rightarrow> string \<Rightarrow> string list" where
  "split_on c [] = [[]]"
| "split_on c (x # xs) =
     (if x = c then [] # split_on c xs
      else (let r = split_on c xs in (x # hd r) # tl r))"

text \<open>\<open>arr.join(sep)\<close> for an array of strings.\<close>

fun join_with :: "string \<Rightarrow> string list \<Rightarrow> string" where
  "join_with sep [] = []"
| "join_with sep [x] = x"
| "join_with sep (x # y # ys) = x @ sep @ join_with sep (y # ys)"

fun is_prefix :: "string \<Rightarrow> string \<Rightarrow> bool" where
  "is_prefix [] s = True"
| "is_prefix (p # ps) [] = False"
| "is_prefix (p # ps) (c # cs) = (p = c \<and> is_prefix ps cs)"

text \<open>\<open>s.replace(pat, rep)\<close> for a string pattern: the first occurrence only.\<close>

fun replace_first :: "string \<Rightarrow> string \<Rightarrow> string \<Rightarrow> string" where
  "replace_first pat rep [] = (if pat = [] then rep else [])"
| "replace_first pat rep (c # cs) =
     (if is_prefix pat (c # cs) then rep @ drop (length pat) (c # cs)
      else c # replace_first pat rep cs)"

text \<open>\<open>s.indexOf(pat) !== -1\<close>.\<close>

fun contains :: "string \<Rightarrow> string \<Rightarrow> bool" where
  "contains pat [] = (pat = [])"
| "contains pat (c # cs) = (is_prefix pat (c # cs) \<or> contains pat cs)"

subsection \<open>The traversal of the \<open>traverse\<close> package\<close>

text \<open>
  \<open>traverse(data).forEach(f)\<close> visits every node in pre-order, the root first with the
  empty path; \<open>this.path\<close> is the list of keys from the root, array indexes as decimal
  strings. \<open>walk\<close> returns the visited nodes with their paths, in visiting order.
\<close>

fun walk :: "string list \<Rightarrow> jv \<Rightarrow> (string list \<times> jv) list"
  and walk_arr :: "string list \<Rightarrow> nat \<Rightarrow> jv list \<Rightarrow> (string list \<times> jv) list"
  and walk_obj :: "string list \<Rightarrow> (string \<times> jv) list \<Rightarrow> (string list \<times> jv) list" where
  "walk p (JArr xs) = (p, JArr xs) # walk_arr p 0 xs"
| "walk p (JObj kvs) = (p, JObj kvs) # walk_obj p kvs"
| "walk p JUndef = [(p, JUndef)]"
| "walk p JNull = [(p, JNull)]"
| "walk p (JBool b) = [(p, JBool b)]"
| "walk p (JNum n) = [(p, JNum n)]"
| "walk p (JStr s) = [(p, JStr s)]"
| "walk_arr p i [] = []"
| "walk_arr p i (x # xs) = walk (p @ [string_of_nat i]) x @ walk_arr p (Suc i) xs"
| "walk_obj p [] = []"
| "walk_obj p ((k, x) # kvs) = walk (p @ [k]) x @ walk_obj p kvs"

definition traverse_paths :: "jv \<Rightarrow> string list list" where
  "traverse_paths data = map fst (walk [] data)"

section \<open>Path matcher (util/path-utils)\<close>

text \<open>
  \<open>matches(refPath, dataPath)\<close>: equal lengths, and the reduce over the pattern tokens
  with their indexes. The length test comes first, so \<open>dataPath[index]\<close> is defined
  whenever the reduce runs.
\<close>

definition matches :: "string list \<Rightarrow> string list \<Rightarrow> bool" where
  "matches refPath dataPath =
     (length refPath = length dataPath \<and>
      foldl (\<lambda>memo (index, token).
               memo \<and> (let dataPathToken = dataPath ! index
                       in dataPathToken = token \<or> (token = ''*'' \<and> match_digit dataPathToken)))
            True (enumerate 0 refPath))"

definition getDataPathsForRefPath :: "string \<Rightarrow> jv \<Rightarrow> string list list" where
  "getDataPathsForRefPath path data =
     (let refPathArr = split_on (CHR ''.'') (replace_first ''$.'' [] path)
      in filter (matches refPathArr) (traverse_paths data))"

text \<open>The token test of the matcher, and the one the specification asks for.\<close>

definition token_ok :: "string \<Rightarrow> string \<Rightarrow> bool" where
  "token_ok token d = (d = token \<or> (token = ''*'' \<and> match_digit d))"

definition is_index :: "string \<Rightarrow> bool" where
  "is_index s = (s \<noteq> [] \<and> list_all is_digit s)"

subsection \<open>\<open>isNaN\<close> of a string\<close>

text \<open>
  \<open>isNaN(s)\<close> is false iff \<open>Number(s)\<close> is a number: after trimming white space, the
  empty string, a signed decimal literal (with optional fraction and exponent),
  \<open>Infinity\<close>, or an unsigned hexadecimal, octal or binary literal. A character of a
  string is a code unit below 256; the white space and line terminators of JavaScript
  in that range are the characters 9 to 13, the space and the no-break space
  \<open>0xA0\<close>.
\<close>

definition is_ws :: "char \<Rightarrow> bool" where
  "is_ws c = (c = CHR '' '' \<or> c = CHR 0xA0 \<or> (9 \<le> (of_char c :: nat) \<and> (of_char c :: nat) \<le> 13))"

definition trim :: "string \<Rightarrow> string" where
  "trim s = rev (dropWhile is_ws (rev (dropWhile is_ws s)))"

definition all_digits :: "string \<Rightarrow> bool" where
  "all_digits s = (s \<noteq> [] \<and> list_all is_digit s)"

fun strip_sign :: "string \<Rightarrow> string" where
  "strip_sign [] = []"
| "strip_sign (c # cs) = (if c = CHR ''+'' \<or> c = CHR ''-'' then cs else c # cs)"

fun is_exponent :: "string \<Rightarrow> bool" where
  "is_exponent [] = True"
| "is_exponent (c # cs) = ((c = CHR ''e'' \<or> c = CHR ''E'') \<and> all_digits (strip_sign cs))"

definition is_decimal :: "string \<Rightarrow> bool" where
  "is_decimal s =
     (let ip = takeWhile is_digit s; r = dropWhile is_digit s
      in case r of
           [] \<Rightarrow> ip \<noteq> []
         | c # cs \<Rightarrow>
             if c = CHR ''.''
             then (let fp = takeWhile is_digit cs; r2 = dropWhile is_digit cs
                   in (ip \<noteq> [] \<or> fp \<noteq> []) \<and> is_exponent r2)
             else ip \<noteq> [] \<and> is_exponent r)"

definition is_hex_digit :: "char \<Rightarrow> bool" where
  "is_hex_digit c = (is_digit c \<or> c \<in> set ''abcdefABCDEF'')"

fun is_nondecimal :: "string \<Rightarrow> bool" where
  "is_nondecimal (z # x # rest) =
     (z = CHR ''0'' \<and> rest \<noteq> [] \<and>
      ((x \<in> set ''xX'' \<and> list_all is_hex_digit rest) \<or>
       (x \<in> set ''oO'' \<and> list_all (\<lambda>c. c \<in> set ''01234567'') rest) \<or>
       (x \<in> set ''bB'' \<and> list_all (\<lambda>c. c \<in> set ''01'') rest)))"
| "is_nondecimal s = False"

definition isNaN_str :: "string \<Rightarrow> bool" where
  "isNaN_str s =
     (let t = trim s
      in \<not> (t = [] \<or> is_nondecimal t \<or> strip_sign t = ''Infinity'' \<or> is_decimal (strip_sign t)))"

text \<open>\<open>s.replace(/\.\*$/, '')\<close>: drop a trailing \<open>.*\<close>.\<close>

definition strip_trailing_star :: "string \<Rightarrow> string" where
  "strip_trailing_star s = (if is_prefix ''*.'' (rev s) then rev (drop 2 (rev s)) else s)"

definition getRefPathForDataPath :: "string list \<Rightarrow> string" where
  "getRefPathForDataPath dataPath =
     strip_trailing_star
       (foldl (\<lambda>memo p. memo @ ''.'' @ (if \<not> isNaN_str p then ''*'' else p)) ''$'' dataPath)"

section \<open>Property access and lodash \<open>get\<close>\<close>

definition nat_of_digits :: "string \<Rightarrow> nat" where
  "nat_of_digits s = foldl (\<lambda>acc c. 10 * acc + (of_char c - of_char (CHR ''0''))) 0 s"

text \<open>A property name is an array index when it is the canonical decimal form of a number.\<close>

definition index_of_string :: "string \<Rightarrow> nat option" where
  "index_of_string s =
     (if is_index s \<and> (length s = 1 \<or> hd s \<noteq> CHR ''0'') then Some (nat_of_digits s) else None)"

definition string_of_int :: "int \<Rightarrow> string" where
  "string_of_int i = (if i < 0 then CHR ''-'' # string_of_nat (nat (- i)) else string_of_nat (nat i))"

text \<open>
  \<open>obj[key]\<close> for a value that is neither \<open>undefined\<close> nor \<open>null\<close>. Only own data
  properties are modelled (no prototype methods).
\<close>

fun jprop :: "jv \<Rightarrow> string \<Rightarrow> jv" where
  "jprop (JObj kvs) k = (case map_of kvs k of Some v \<Rightarrow> v | None \<Rightarrow> JUndef)"
| "jprop (JArr xs) k =
     (if k = ''length'' then JNum (int (length xs))
      else (case index_of_string k of
              Some i \<Rightarrow> (if i < length xs then xs ! i else JUndef)
            | None \<Rightarrow> JUndef))"
| "jprop (JStr s) k =
     (if k = ''length'' then JNum (int (length s))
      else (case index_of_string k of
              Some i \<Rightarrow> (if i < length s then JStr [s ! i] else JUndef)
            | None \<Rightarrow> JUndef))"
| "jprop v k = JUndef"

definition nullish :: "jv \<Rightarrow> bool" where
  "nullish v = (v = JUndef \<or> v = JNull)"

text \<open>
  lodash \<open>baseGet\<close>: follow the keys while the current object is neither \<open>undefined\<close> nor
  \<open>null\<close>; the result is \<open>undefined\<close> when the walk stops early or the path is empty.
\<close>

fun baseGet_loop :: "jv \<Rightarrow> string list \<Rightarrow> jv option" where
  "baseGet_loop obj [] = Some obj"
| "baseGet_loop obj (k # ks) = (if nullish obj then None else baseGet_loop (jprop obj k) ks)"

definition get_path :: "jv \<Rightarrow> string list \<Rightarrow> jv" where
  "get_path obj path =
     (if path = [] then JUndef
      else (case baseGet_loop obj path of Some v \<Rightarrow> v | None \<Rightarrow> JUndef))"

text \<open>
  lodash \<open>castPath\<close> of a string: the string itself when it is a key of the object,
  else its dot-separated parts. The bracket syntax of lodash paths (\<open>a[0]\<close>) is not
  modelled: the engine builds its path strings with dots only.
\<close>

definition has_key :: "jv \<Rightarrow> string \<Rightarrow> bool" where
  "has_key obj k = (case obj of JObj kvs \<Rightarrow> map_of kvs k \<noteq> None | _ \<Rightarrow> False)"

definition castPath :: "string \<Rightarrow> jv \<Rightarrow> string list" where
  "castPath s obj = (if has_key obj s then [s] else split_on (CHR ''.'') s)"

definition get_str :: "jv \<Rightarrow> string \<Rightarrow> jv" where
  "get_str obj s = get_path obj (castPath s obj)"

text \<open>
  The \<open>targetPath\<close> argument of the resolver: absent (\<open>undefined\<close>), \<open>null\<close> (derived
  values and decision outputs), an array of tokens (pruning and custom validations) or a
  dotted string (required checks).
\<close>

datatype tpath = TUndef | TNull | TArr "string list" | TStr string

definition tpath_truthy :: "tpath \<Rightarrow> bool" where
  "tpath_truthy t = (case t of TUndef \<Rightarrow> False | TNull \<Rightarrow> False | TArr _ \<Rightarrow> True | TStr s \<Rightarrow> s \<noteq> [])"

definition get_tpath :: "jv \<Rightarrow> tpath \<Rightarrow> jv" where
  "get_tpath data t =
     (case t of TArr p \<Rightarrow> get_path data p | TStr s \<Rightarrow> get_str data s | _ \<Rightarrow> JUndef)"

section \<open>Expression resolver (resolver.js)\<close>

text \<open>\<open>String(v)\<close>, as used when a value is a property name.\<close>

fun to_string :: "jv \<Rightarrow> string" and to_string_elems :: "jv list \<Rightarrow> string list" where
  "to_string JUndef = ''undefined''"
| "to_string JNull = ''null''"
| "to_string (JBool b) = (if b then ''true'' else ''false'')"
| "to_string (JNum n) = string_of_int n"
| "to_string (JStr s) = s"
| "to_string (JArr xs) = join_with '','' (to_string_elems xs)"
| "to_string (JObj kvs) = ''[object Object]''"
| "to_string_elems [] = []"
| "to_string_elems (x # xs) = (if nullish x then [] else to_string x) # to_string_elems xs"

text \<open>
  The function context: \<open>ctx k = Some f\<close> iff \<open>typeof context[k] === 'function'\<close>; a
  capability takes the resolved arguments and returns a value or throws.
\<close>

type_synonym fcontext = "string \<Rightarrow> (jv list \<Rightarrow> error + jv) option"

definition collectArrayValues :: "string \<Rightarrow> jv \<Rightarrow> jv list" where
  "collectArrayValues pathStr data = map (get_path data) (getDataPathsForRefPath pathStr data)"

text \<open>
  \<open>targetPath[index]\<close> for a \<open>^\<close> token, already turned into the text \<open>join\<close> gives it
  (\<open>undefined\<close> joins as the empty string). The parameter defaults to \<open>[]\<close> only when it
  is \<open>undefined\<close>; indexing \<open>null\<close> throws.
\<close>

definition tpath_token :: "tpath \<Rightarrow> nat \<Rightarrow> error + string" where
  "tpath_token t index =
     (case t of
        TUndef \<Rightarrow> Inr []
      | TNull \<Rightarrow> Inl TypeError
      | TArr p \<Rightarrow> Inr (if index < length p then p ! index else [])
      | TStr s \<Rightarrow> Inr (if index < length s then [s ! index] else []))"

fun relative_tokens :: "tpath \<Rightarrow> nat \<Rightarrow> string list \<Rightarrow> error + string list" where
  "relative_tokens t index [] = Inr []"
| "relative_tokens t index (token # rest) =
     (case (if token = ''^'' then tpath_token t index else Inr token) of
        Inl e \<Rightarrow> Inl e
      | Inr x \<Rightarrow> (case relative_tokens t (Suc index) rest of
                    Inl e \<Rightarrow> Inl e
                  | Inr xs \<Rightarrow> Inr (x # xs)))"

definition applyRelativeIndexes :: "string \<Rightarrow> tpath \<Rightarrow> error + string" where
  "applyRelativeIndexes pathStr targetPath =
     (case relative_tokens targetPath 0 (split_on (CHR ''.'') pathStr) of
        Inl e \<Rightarrow> Inl e
      | Inr toks \<Rightarrow> Inr (join_with ''.'' toks))"

text \<open>
  \<open>resolveString\<close> returns the lines written with \<open>console.warn\<close> and the result. After
  the warning of the \<open>$value\<close> case control falls through to the tests below it.
\<close>

definition resolveString :: "string \<Rightarrow> jv \<Rightarrow> fcontext \<Rightarrow> tpath \<Rightarrow> string list \<times> (error + jv)" where
  "resolveString string data ctx targetPath =
     (if string = ''$value'' \<and> tpath_truthy targetPath then ([], Inr (get_tpath data targetPath))
      else
        (let warned = (if string = ''$value'' then [''$value specified, but no targetPath defined''] else [])
         in if is_prefix ''$.'' string then
              (case (if contains ''^'' string
                     then (case applyRelativeIndexes (replace_first ''$.'' [] string) targetPath of
                             Inl e \<Rightarrow> Inl e | Inr r \<Rightarrow> Inr (''$.'' @ r))
                     else Inr string) of
                 Inl e \<Rightarrow> (warned, Inl e)
               | Inr pathStr \<Rightarrow>
                   if contains ''*'' pathStr then (warned, Inr (JArr (collectArrayValues pathStr data)))
                   else (warned, Inr (get_str data (replace_first ''$.'' [] pathStr))))
            else (warned, Inr (JStr string))))"

text \<open>JavaScript truthiness.\<close>

fun truthy :: "jv \<Rightarrow> bool" where
  "truthy JUndef = False"
| "truthy JNull = False"
| "truthy (JBool b) = b"
| "truthy (JNum n) = (n \<noteq> 0)"
| "truthy (JStr s) = (s \<noteq> [])"
| "truthy (JArr xs) = True"
| "truthy (JObj kvs) = True"

text \<open>\<open>Array.isArray(resolvable.args) ? resolvable.args : []\<close>.\<close>

definition call_args :: "jv \<Rightarrow> jv list" where
  "call_args resolvable = (case jprop resolvable ''args'' of JArr as \<Rightarrow> as | _ \<Rightarrow> [])"

lemma size_map_of:
  "map_of kvs k = Some v \<Longrightarrow> size v < size (JObj kvs)"
  by (induction kvs) (auto split: if_splits)

lemma size_call_args: "size_list size (call_args r) < Suc (size r)"
proof (cases r)
  case (JObj kvs)
  show ?thesis
  proof (cases "map_of kvs ''args''")
    case None
    with JObj show ?thesis by (simp add: call_args_def)
  next
    case (Some v)
    from size_map_of [OF Some] JObj Some show ?thesis
      by (cases v) (auto simp: call_args_def)
  qed
qed (auto simp: call_args_def index_of_string_def is_index_def is_digit_def split: option.splits)

text \<open>
  \<open>resolve(resolvable, data, context, targetPath)\<close>. Reading \<open>resolvable.fn\<close> of
  \<open>undefined\<close> or \<open>null\<close> throws. The warnings of \<open>resolveString\<close> are not collected.
\<close>

function resolve :: "jv \<Rightarrow> jv \<Rightarrow> fcontext \<Rightarrow> tpath \<Rightarrow> error + jv"
  and resolve_all :: "jv list \<Rightarrow> jv \<Rightarrow> fcontext \<Rightarrow> tpath \<Rightarrow> error + jv list"
  and resolve_props :: "(string \<times> jv) list \<Rightarrow> jv \<Rightarrow> fcontext \<Rightarrow> tpath \<Rightarrow> error + (string \<times> jv) list" where
  "resolve resolvable data ctx targetPath =
     (if nullish resolvable then Inl TypeError
      else (case ctx (to_string (jprop resolvable ''fn'')) of
              Some f \<Rightarrow>
                (case resolve_all (call_args resolvable) data ctx targetPath of
                   Inl e \<Rightarrow> Inl e
                 | Inr vs \<Rightarrow> f vs)
            | None \<Rightarrow>
                (case resolvable of
                   JStr s \<Rightarrow> snd (resolveString s data ctx targetPath)
                 | JArr xs \<Rightarrow>
                     (case resolve_all xs data ctx targetPath of
                        Inl e \<Rightarrow> Inl e
                      | Inr vs \<Rightarrow> Inr (JArr vs))
                 | JObj kvs \<Rightarrow>
                     (case resolve_props kvs data ctx targetPath of
                        Inl e \<Rightarrow> Inl e
                      | Inr r \<Rightarrow> Inr (JObj r))
                 | _ \<Rightarrow> Inr resolvable)))"
| "resolve_all [] data ctx targetPath = Inr []"
| "resolve_all (x # xs) data ctx targetPath =
     (case resolve x data ctx targetPath of
        Inl e \<Rightarrow> Inl e
      | Inr v \<Rightarrow>
          (case resolve_all xs data ctx targetPath of
             Inl e \<Rightarrow> Inl e
           | Inr vs \<Rightarrow> Inr (v # vs)))"
| "resolve_props [] data ctx targetPath = Inr []"
| "resolve_props ((k, x) # kvs) data ctx targetPath =
     (case resolve x data ctx targetPath of
        Inl e \<Rightarrow> Inl e
      | Inr v \<Rightarrow>
          (case resolve_props kvs data ctx targetPath of
             Inl e \<Rightarrow> Inl e
           | Inr r \<Rightarrow> Inr ((k, v) # r)))"
  by pat_completeness auto
termination
  apply (relation "measure (\<lambda>a. case a of
      Inl (r, _) \<Rightarrow> 2 * size r + 1
    | Inr (Inl (xs, _)) \<Rightarrow> 2 * size_list size xs
    | Inr (Inr (kvs, _)) \<Rightarrow> 2 * size_list (size_prod (\<lambda>x. 0) size) kvs)")
       apply simp_all
  subgoal for resolvable ctx f
    using size_call_args [of resolvable] by simp
  done

declare resolve.simps [simp del]

section \<open>Configuration index\<close>

text \<open>
  The configuration index (\<open>data-descriptor\<close>) is not part of the engine. It is taken as
  given: the lookup \<open>getConfigNodeByPath\<close> (\<open>undefined\<close> for an unknown path) and the
  lists \<open>nodes\<close>, \<open>edges\<close> and \<open>derived\<close>. Configuration nodes are plain values.
\<close>

record config =
  getConfigNodeByPath :: "string \<Rightarrow> jv"
  nodes :: "jv list"
  edges :: "jv list"
  derived :: "jv list"

text \<open>\<open>obj.key\<close> in the source: a \<open>TypeError\<close> on \<open>undefined\<close> and \<open>null\<close>.\<close>

definition member :: "jv \<Rightarrow> string \<Rightarrow> error + jv" where
  "member obj k = (if nullish obj then Inl TypeError else Inr (jprop obj k))"

section \<open>Pruner (index.js)\<close>

text \<open>
  The reduce of \<open>preconditionsMet\<close>: \<open>memo && resolve(...)\<close> evaluates the precondition
  only while \<open>memo\<close> is truthy, and keeps the first falsy value.
\<close>

fun preconditions_reduce :: "jv \<Rightarrow> jv list \<Rightarrow> jv \<Rightarrow> fcontext \<Rightarrow> tpath \<Rightarrow> error + jv" where
  "preconditions_reduce memo [] data ctx dataPath = Inr memo"
| "preconditions_reduce memo (precondition # rest) data ctx dataPath =
     (if truthy memo
      then (case resolve precondition data ctx dataPath of
              Inl e \<Rightarrow> Inl e
            | Inr v \<Rightarrow> preconditions_reduce v rest data ctx dataPath)
      else preconditions_reduce memo rest data ctx dataPath)"

definition preconditionsMet :: "jv \<Rightarrow> jv \<Rightarrow> fcontext \<Rightarrow> tpath \<Rightarrow> error + jv" where
  "preconditionsMet configNode data ctx dataPath =
     (case member configNode ''preconditions'' of
        Inl e \<Rightarrow> Inl e
      | Inr preconditions \<Rightarrow>
          (case preconditions of
             JArr ps \<Rightarrow> preconditions_reduce (JBool True) ps data ctx dataPath
           | _ \<Rightarrow> Inr (JBool True)))"

subsection \<open>lodash \<open>set\<close>\<close>

definition isObject :: "jv \<Rightarrow> bool" where
  "isObject v = (case v of JArr _ \<Rightarrow> True | JObj _ \<Rightarrow> True | _ \<Rightarrow> False)"

text \<open>
  A new property of an object: integer-like keys are enumerated first, in ascending
  order, the other keys after them in insertion order.
\<close>

fun obj_insert :: "(string \<times> 'a) list \<Rightarrow> string \<Rightarrow> 'a \<Rightarrow> (string \<times> 'a) list" where
  "obj_insert [] k v = [(k, v)]"
| "obj_insert ((k', v') # kvs) k v =
     (case index_of_string k of
        None \<Rightarrow> (k', v') # obj_insert kvs k v
      | Some i \<Rightarrow>
          (case index_of_string k' of
             None \<Rightarrow> (k, v) # (k', v') # kvs
           | Some j \<Rightarrow> if i < j then (k, v) # (k', v') # kvs else (k', v') # obj_insert kvs k v))"

fun obj_update :: "(string \<times> 'a) list \<Rightarrow> string \<Rightarrow> 'a \<Rightarrow> (string \<times> 'a) list" where
  "obj_update [] k v = []"
| "obj_update ((k', v') # kvs) k v =
     (if k' = k then (k, v) # kvs else (k', v') # obj_update kvs k v)"

text \<open>
  \<open>assignValue(object, key, value)\<close> on an array or an object: the property is
  written unless it already holds the value; a missing key is created, also for
  \<open>undefined\<close>. An array written past its end grows; JavaScript leaves holes in
  between, which read as \<open>undefined\<close> and which a traversal skips, and here the slots
  are filled with \<open>undefined\<close>. Arrays hold indexed elements only: a named property
  written to an array is left out. Neither case arises when the path written exists in
  the tree.
\<close>

definition assignValue :: "jv \<Rightarrow> string \<Rightarrow> jv \<Rightarrow> jv" where
  "assignValue object k v =
     (case object of
        JObj kvs \<Rightarrow>
          JObj (if map_of kvs k = None then obj_insert kvs k v else obj_update kvs k v)
      | JArr xs \<Rightarrow>
          (case index_of_string k of
             Some i \<Rightarrow>
               JArr (if i < length xs then xs[i := v]
                     else xs @ replicate (i - length xs) JUndef @ [v])
           | None \<Rightarrow> JArr xs)
      | _ \<Rightarrow> object)"

text \<open>
  \<open>baseSet\<close> with an array path: every key but the last steps into the value found
  there when that is an array or object, else into a fresh \<open>[]\<close> (if the next key is an
  index) or \<open>{}\<close>; the last key is assigned the value. The guard against the keys
  \<open>__proto__\<close>, \<open>constructor\<close> and \<open>prototype\<close> of recent lodash versions is not
  modelled.
\<close>

fun baseSet :: "jv \<Rightarrow> string list \<Rightarrow> jv \<Rightarrow> jv" where
  "baseSet nested [] v = nested"
| "baseSet nested [k] v = assignValue nested k v"
| "baseSet nested (k # k' # ks) v =
     (let objValue = jprop nested k;
          newValue = (if isObject objValue then objValue
                      else if index_of_string k' \<noteq> None then JArr [] else JObj [])
      in assignValue nested k (baseSet newValue (k' # ks) v))"

definition set_path :: "jv \<Rightarrow> string list \<Rightarrow> jv \<Rightarrow> jv" where
  "set_path object path v = (if isObject object then baseSet object path v else object)"

text \<open>\<open>cloneDeep\<close> of a tree is a tree with the same content.\<close>

definition cloneDeep :: "jv \<Rightarrow> jv" where
  "cloneDeep v = v"

subsection \<open>\<open>pruneData\<close>\<close>

text \<open>The inner loop over the matched paths of one dependency, and the outer loop.\<close>

fun pruneData_paths :: "config \<Rightarrow> jv \<Rightarrow> fcontext \<Rightarrow> string \<Rightarrow> jv \<Rightarrow> string list list \<Rightarrow> error + jv" where
  "pruneData_paths cfg data ctx dep result [] = Inr result"
| "pruneData_paths cfg data ctx dep result (path # paths) =
     (case preconditionsMet (getConfigNodeByPath cfg dep) data ctx (TArr path) of
        Inl e \<Rightarrow> Inl e
      | Inr met \<Rightarrow>
          pruneData_paths cfg data ctx dep
            (if \<not> truthy met then set_path result path JUndef else result) paths)"

fun pruneData_deps :: "config \<Rightarrow> jv \<Rightarrow> fcontext \<Rightarrow> jv \<Rightarrow> string list \<Rightarrow> error + jv" where
  "pruneData_deps cfg data ctx result [] = Inr result"
| "pruneData_deps cfg data ctx result (dep # deps) =
     (case pruneData_paths cfg data ctx dep result (getDataPathsForRefPath dep data) of
        Inl e \<Rightarrow> Inl e
      | Inr result' \<Rightarrow> pruneData_deps cfg data ctx result' deps)"

definition pruneData :: "jv \<Rightarrow> config \<Rightarrow> string list \<Rightarrow> fcontext \<Rightarrow> error + jv" where
  "pruneData data cfg depOrder ctx = pruneData_deps cfg data ctx (cloneDeep data) depOrder"

text \<open>
  The pruning decisions as the specification words them: for each dependency in order
  and each concrete path its pattern matches in the input, whether the preconditions
  fail there; all of it read from the input snapshot alone.
\<close>

fun unmet_paths :: "config \<Rightarrow> jv \<Rightarrow> fcontext \<Rightarrow> string \<Rightarrow> string list list \<Rightarrow> error + string list list" where
  "unmet_paths cfg data ctx dep [] = Inr []"
| "unmet_paths cfg data ctx dep (path # paths) =
     (case preconditionsMet (getConfigNodeByPath cfg dep) data ctx (TArr path) of
        Inl e \<Rightarrow> Inl e
      | Inr met \<Rightarrow>
          (case unmet_paths cfg data ctx dep paths of
             Inl e \<Rightarrow> Inl e
           | Inr ps \<Rightarrow> Inr (if \<not> truthy met then path # ps else ps)))"

fun pruning_decisions :: "config \<Rightarrow> jv \<Rightarrow> fcontext \<Rightarrow> string list \<Rightarrow> error + string list list" where
  "pruning_decisions cfg data ctx [] = Inr []"
| "pruning_decisions cfg data ctx (dep # deps) =
     (case unmet_paths cfg data ctx dep (getDataPathsForRefPath dep data) of
        Inl e \<Rightarrow> Inl e
      | Inr ps \<Rightarrow>
          (case pruning_decisions cfg data ctx deps of
             Inl e \<Rightarrow> Inl e
           | Inr qs \<Rightarrow> Inr (ps @ qs)))"

definition clear_all :: "jv \<Rightarrow> string list list \<Rightarrow> jv" where
  "clear_all result ps = foldl (\<lambda>r p. set_path r p JUndef) result ps"

section \<open>Graph evaluator (index.js)\<close>

text \<open>
  Section states as the validator returns them: per section id the status and the
  recorded messages, a message being its path string and its text.
\<close>

type_synonym vmsg = "string \<times> jv"

record section_state =
  status :: string
  validationMessages :: "vmsg list"

type_synonym section_states = "string \<Rightarrow> section_state option"

text \<open>
  The \<open>toposort\<close> package is taken as given: from a list of pairs it returns an order
  of the nodes named in them, or throws on a cycle.
\<close>

type_synonym toposort = "(jv \<times> jv) list \<Rightarrow> error + jv list"

fun edge_dependencies :: "jv list \<Rightarrow> error + (jv \<times> jv) list" where
  "edge_dependencies [] = Inr []"
| "edge_dependencies (edge # rest) =
     (case member edge ''to'' of
        Inl e \<Rightarrow> Inl e
      | Inr t \<Rightarrow>
          (case member edge ''from'' of
             Inl e \<Rightarrow> Inl e
           | Inr f \<Rightarrow>
               (case edge_dependencies rest of
                  Inl e \<Rightarrow> Inl e
                | Inr ds \<Rightarrow> Inr ((t, f) # ds))))"

definition getNodeEvaluationOrder :: "toposort \<Rightarrow> jv list \<Rightarrow> error + jv list" where
  "getNodeEvaluationOrder topo es =
     (case edge_dependencies es of
        Inl e \<Rightarrow> Inl e
      | Inr ds \<Rightarrow>
          (case topo ((JStr ''END'', JStr ''START'') # ds) of
             Inl e \<Rightarrow> Inl e
           | Inr order \<Rightarrow> Inr (rev order)))"

definition isTerminalNodePath :: "jv \<Rightarrow> bool" where
  "isTerminalNodePath p = (p = JStr ''START'' \<or> p = JStr ''END'')"

text \<open>
  The accumulator of the reduce over the evaluation order: the map of node statuses,
  which is \<open>undefined\<close> (\<open>None\<close>) after a callback that returned nothing, and the flag
  \<open>frontierFound\<close>.
\<close>

type_synonym node_statuses = "string \<Rightarrow> jv option"

definition assign_status :: "node_statuses option \<Rightarrow> jv \<Rightarrow> jv \<Rightarrow> error + node_statuses option" where
  "assign_status memo nodePath v =
     (case memo of
        None \<Rightarrow> Inl TypeError
      | Some m \<Rightarrow> Inr (Some (m(to_string nodePath \<mapsto> v))))"

definition node_step ::
  "config \<Rightarrow> jv \<Rightarrow> fcontext \<Rightarrow> section_states \<Rightarrow> node_statuses option \<times> bool \<Rightarrow> jv
   \<Rightarrow> error + (node_statuses option \<times> bool)" where
  "node_step cfg data ctx sectionStates acc nodePath =
     (let memo = fst acc; frontierFound = snd acc in
      if isTerminalNodePath nodePath then
        (case assign_status memo nodePath (JStr ''active'') of
           Inl e \<Rightarrow> Inl e | Inr m \<Rightarrow> Inr (m, frontierFound))
      else
        (let node = getConfigNodeByPath cfg (''$.'' @ to_string nodePath) in
         if frontierFound then
           (case assign_status memo nodePath (JStr ''inactive'') of
              Inl e \<Rightarrow> Inl e | Inr m \<Rightarrow> Inr (m, frontierFound))
         else
           (case member node ''type'' of
              Inl e \<Rightarrow> Inl e
            | Inr ty \<Rightarrow>
                if ty = JStr ''input_section'' then
                  (case jprop node ''id'' of
                     JStr ident \<Rightarrow>
                       (case sectionStates (replace_first ''$.'' [] ident) of
                          None \<Rightarrow> Inl TypeError
                        | Some st \<Rightarrow>
                            if status st = ''valid'' then
                              (case assign_status memo nodePath (JStr ''active'') of
                                 Inl e \<Rightarrow> Inl e | Inr m \<Rightarrow> Inr (m, frontierFound))
                            else
                              (case assign_status memo nodePath (JStr ''inactive'') of
                                 Inl e \<Rightarrow> Inl e | Inr m \<Rightarrow> Inr (m, True)))
                   | _ \<Rightarrow> Inl TypeError)
                else if ty = JStr ''decision'' then
                  (case resolve (jprop node ''output'') data ctx TNull of
                     Inl e \<Rightarrow> Inl e
                   | Inr v \<Rightarrow>
                       (case assign_status memo nodePath v of
                          Inl e \<Rightarrow> Inl e | Inr m \<Rightarrow> Inr (m, frontierFound)))
                else Inr (None, frontierFound))))"

fun node_steps ::
  "config \<Rightarrow> jv \<Rightarrow> fcontext \<Rightarrow> section_states \<Rightarrow> node_statuses option \<times> bool \<Rightarrow> jv list
   \<Rightarrow> error + (node_statuses option \<times> bool)" where
  "node_steps cfg data ctx sectionStates acc [] = Inr acc"
| "node_steps cfg data ctx sectionStates acc (nodePath # rest) =
     (case node_step cfg data ctx sectionStates acc nodePath of
        Inl e \<Rightarrow> Inl e
      | Inr acc' \<Rightarrow> node_steps cfg data ctx sectionStates acc' rest)"

text \<open>The status of one edge, and the edge with the status added.\<close>

definition edge_status :: "config \<Rightarrow> node_statuses option \<Rightarrow> jv \<Rightarrow> error + jv" where
  "edge_status cfg nodeStatuses edge =
     (case member edge ''from'' of
        Inl e \<Rightarrow> Inl e
      | Inr f \<Rightarrow>
          (case nodeStatuses of
             None \<Rightarrow> Inl TypeError
           | Some m \<Rightarrow>
               (let st = (case m (to_string f) of Some v \<Rightarrow> v | None \<Rightarrow> JUndef);
                    found = getConfigNodeByPath cfg (''$.'' @ to_string f);
                    fromNode = (if truthy found then found else JObj [])
                in if jprop fromNode ''type'' = JStr ''decision'' \<and> st \<noteq> JStr ''inactive''
                   then Inr (if truthy st
                             then (if truthy (jprop edge ''when_input_is'')
                                   then JStr ''active'' else JStr ''inactive'')
                             else (if truthy (jprop edge ''when_input_is'')
                                   then JStr ''inactive'' else JStr ''active''))
                   else Inr st)))"

text \<open>\<open>Object.assign({}, edge, {status})\<close> for an edge that is an object.\<close>

definition with_status :: "jv \<Rightarrow> jv \<Rightarrow> jv" where
  "with_status edge st =
     assignValue (JObj (case edge of JObj kvs \<Rightarrow> kvs | _ \<Rightarrow> [])) ''status'' st"

fun edge_states :: "config \<Rightarrow> node_statuses option \<Rightarrow> jv list \<Rightarrow> error + jv list" where
  "edge_states cfg nodeStatuses [] = Inr []"
| "edge_states cfg nodeStatuses (edge # rest) =
     (case edge_status cfg nodeStatuses edge of
        Inl e \<Rightarrow> Inl e
      | Inr st \<Rightarrow>
          (case edge_states cfg nodeStatuses rest of
             Inl e \<Rightarrow> Inl e
           | Inr r \<Rightarrow> Inr (with_status edge st # r)))"

definition evaluateEdgeStates ::
  "toposort \<Rightarrow> jv \<Rightarrow> config \<Rightarrow> fcontext \<Rightarrow> section_states \<Rightarrow> error + jv list" where
  "evaluateEdgeStates topo data cfg ctx sectionStates =
     (case getNodeEvaluationOrder topo (edges cfg) of
        Inl e \<Rightarrow> Inl e
      | Inr nodeEvaluationOrder \<Rightarrow>
          (case node_steps cfg data ctx sectionStates (Some Map.empty, False) nodeEvaluationOrder of
             Inl e \<Rightarrow> Inl e
           | Inr acc \<Rightarrow> edge_states cfg (fst acc) (edges cfg)))"

subsection \<open>Two small workflows\<close>

text \<open>
  The chain \<open>START \<rightarrow> S1 \<rightarrow> S2 \<rightarrow> END\<close> with \<open>S1\<close> invalid, and a decision \<open>D\<close>
  whose output is \<open>true\<close> with a true branch to \<open>X\<close> and a false branch to \<open>Y\<close>. For
  each, \<open>toposort\<close> is the order the package returns for the dependencies of the graph.
\<close>

definition is_string :: "jv \<Rightarrow> bool" where
  "is_string v = (case v of JStr _ \<Rightarrow> True | _ \<Rightarrow> False)"

definition mk_edge :: "string \<Rightarrow> string \<Rightarrow> jv" where
  "mk_edge f t = JObj [(''from'', JStr f), (''to'', JStr t)]"

definition mk_branch :: "string \<Rightarrow> string \<Rightarrow> bool \<Rightarrow> jv" where
  "mk_branch f t b = JObj [(''from'', JStr f), (''to'', JStr t), (''when_input_is'', JBool b)]"

definition section_node :: "string \<Rightarrow> jv" where
  "section_node ident = JObj [(''type'', JStr ''input_section''), (''id'', JStr ident)]"

definition chain_cfg :: config where
  "chain_cfg =
     \<lparr> getConfigNodeByPath =
         (\<lambda>p. if p = ''$.S1'' then section_node ''S1''
              else if p = ''$.S2'' then section_node ''S2'' else JUndef),
       nodes = [section_node ''S1'', section_node ''S2''],
       edges = [mk_edge ''START'' ''S1'', mk_edge ''S1'' ''S2'', mk_edge ''S2'' ''END''],
       derived = [] \<rparr>"

definition chain_states :: section_states where
  "chain_states =
     (\<lambda>k. if k = ''S1'' then Some \<lparr> status = ''invalid'', validationMessages = [(''S1.name'', JStr ''required'')] \<rparr>
          else if k = ''S2'' then Some \<lparr> status = ''valid'', validationMessages = [] \<rparr>
          else None)"

definition chain_topo :: toposort where
  "chain_topo deps = Inr [JStr ''END'', JStr ''S2'', JStr ''S1'', JStr ''START'']"

definition no_capabilities :: fcontext where
  "no_capabilities k = None"

definition decision_cfg :: config where
  "decision_cfg =
     \<lparr> getConfigNodeByPath =
         (\<lambda>p. if p = ''$.D'' then JObj [(''type'', JStr ''decision''), (''output'', JBool True)]
              else if p = ''$.X'' then section_node ''X''
              else if p = ''$.Y'' then section_node ''Y'' else JUndef),
       nodes = [section_node ''X'', section_node ''Y''],
       edges = [mk_edge ''START'' ''D'', mk_branch ''D'' ''X'' True, mk_branch ''D'' ''Y'' False,
                mk_edge ''X'' ''END'', mk_edge ''Y'' ''END''],
       derived = [] \<rparr>"

definition decision_states :: section_states where
  "decision_states =
     (\<lambda>k. if k = ''X'' \<or> k = ''Y'' then Some \<lparr> status = ''valid'', validationMessages = [] \<rparr> else None)"

definition decision_topo :: toposort where
  "decision_topo deps = Inr [JStr ''END'', JStr ''X'', JStr ''Y'', JStr ''D'', JStr ''START'']"

section \<open>Section validator (index.js)\<close>

definition isBlank :: "jv \<Rightarrow> bool" where
  "isBlank v = (v = JUndef \<or> v = JStr [])"

definition dataNodeIsBlank :: "string \<Rightarrow> jv \<Rightarrow> bool" where
  "dataNodeIsBlank path data =
     (let v = get_str data path
      in if isBlank v then True
         else (case v of
                 JArr xs \<Rightarrow> (case xs of [] \<Rightarrow> True | x # _ \<Rightarrow> isBlank x)
               | _ \<Rightarrow> False))"

definition isArrayPath :: "string \<Rightarrow> bool" where
  "isArrayPath path = contains ''*'' path"

text \<open>
  \<open>getNearestRepeatableAncestorRefPath\<close>: pop tokens from the end until a \<open>*\<close>; the loop
  also stops, with \<open>null\<close>, at an empty token or when no token is left.
\<close>

fun nearest_star :: "string list \<Rightarrow> string option" where
  "nearest_star [] = None"
| "nearest_star (item # rest) =
     (if item = [] then None
      else if item = ''*'' then Some (join_with ''.'' (rev rest) @ ''.*'')
      else nearest_star rest)"

definition getNearestRepeatableAncestorRefPath :: "string \<Rightarrow> string option" where
  "getNearestRepeatableAncestorRefPath path = nearest_star (rev (split_on (CHR ''.'') path))"

definition getAbsoluteDataPath :: "string \<Rightarrow> string \<Rightarrow> string" where
  "getAbsoluteDataPath rootDataPath refPath =
     (let dataArr = split_on (CHR ''.'') rootDataPath;
          refArr = split_on (CHR ''.'') (replace_first ''$.'' [] refPath)
      in join_with ''.'' (dataArr @ drop (length dataArr) refArr))"

text \<open>
  \<open>this.path\<close> inside \<open>resolveRequiredMessage\<close>: the function is called as a plain
  function of a non-strict module, so \<open>this\<close> is the global object, which has no \<open>path\<close>.
\<close>

definition this_path :: tpath where
  "this_path = TUndef"

fun required_reduce :: "jv \<Rightarrow> jv \<Rightarrow> nat \<Rightarrow> jv list \<Rightarrow> error + jv" where
  "required_reduce requiredNode memo index [] = Inr memo"
| "required_reduce requiredNode memo index (result # rest) =
     (if truthy result \<and> \<not> truthy memo
      then (case member (jprop requiredNode (string_of_nat index)) ''message'' of
              Inl e \<Rightarrow> Inl e
            | Inr msg \<Rightarrow> required_reduce requiredNode msg (Suc index) rest)
      else required_reduce requiredNode memo (Suc index) rest)"

definition resolveRequiredMessage :: "jv \<Rightarrow> jv \<Rightarrow> fcontext \<Rightarrow> string \<Rightarrow> error + jv" where
  "resolveRequiredMessage requiredNode data ctx path =
     (case resolve requiredNode data ctx this_path of
        Inl e \<Rightarrow> Inl e
      | Inr resolvedRequired \<Rightarrow>
          (case resolvedRequired of
             JArr rs \<Rightarrow> required_reduce requiredNode (JBool False) 0 rs
           | _ \<Rightarrow> Inr resolvedRequired))"

definition validateRequired :: "jv \<Rightarrow> jv \<Rightarrow> fcontext \<Rightarrow> string \<Rightarrow> error + vmsg option" where
  "validateRequired configNode data ctx path =
     (case member configNode ''required'' of
        Inl e \<Rightarrow> Inl e
      | Inr required \<Rightarrow>
          (case resolveRequiredMessage required data ctx path of
             Inl e \<Rightarrow> Inl e
           | Inr requiredMessage \<Rightarrow>
               if truthy requiredMessage
               then (case preconditionsMet configNode data ctx (TStr path) of
                       Inl e \<Rightarrow> Inl e
                     | Inr met \<Rightarrow>
                         Inr (if truthy met \<and> dataNodeIsBlank path data
                              then Some (path, requiredMessage) else None))
               else Inr None))"

definition applyRequiredValidationIfMissing ::
  "jv \<Rightarrow> jv \<Rightarrow> fcontext \<Rightarrow> string \<Rightarrow> vmsg list \<Rightarrow> error + vmsg list" where
  "applyRequiredValidationIfMissing configNode data ctx path messageArr =
     (case validateRequired configNode data ctx path of
        Inl e \<Rightarrow> Inl e
      | Inr None \<Rightarrow> Inr messageArr
      | Inr (Some m) \<Rightarrow> Inr (messageArr @ [m]))"

fun required_each ::
  "jv \<Rightarrow> jv \<Rightarrow> fcontext \<Rightarrow> string \<Rightarrow> string list list \<Rightarrow> vmsg list \<Rightarrow> error + vmsg list" where
  "required_each n data ctx refPath [] messageArr = Inr messageArr"
| "required_each n data ctx refPath (dataPath # rest) messageArr =
     (case applyRequiredValidationIfMissing n data ctx
             (getAbsoluteDataPath (join_with ''.'' dataPath) refPath) messageArr of
        Inl e \<Rightarrow> Inl e
      | Inr messageArr' \<Rightarrow> required_each n data ctx refPath rest messageArr')"

text \<open>The callback of the traversal of a section's configuration node.\<close>

definition required_check :: "jv \<Rightarrow> fcontext \<Rightarrow> vmsg list \<Rightarrow> jv \<Rightarrow> error + vmsg list" where
  "required_check data ctx messageArr n =
     (if truthy n \<and> truthy (jprop n ''required'') then
        (case jprop n ''path'' of
           JStr p \<Rightarrow>
             if \<not> isArrayPath p
             then applyRequiredValidationIfMissing n data ctx (replace_first ''$.'' [] p) messageArr
             else
               (let pathHead = join_with ''.'' (butlast (split_on (CHR ''.'') p)) in
                if \<not> isArrayPath pathHead
                then applyRequiredValidationIfMissing n data ctx
                       (replace_first ''$.'' [] pathHead) messageArr
                else
                  (case getNearestRepeatableAncestorRefPath pathHead of
                     None \<Rightarrow> Inl TypeError
                   | Some ancestorRefPath \<Rightarrow>
                       required_each n data ctx p
                         (getDataPathsForRefPath ancestorRefPath data) messageArr))
         | _ \<Rightarrow> Inl TypeError)
      else Inr messageArr)"

fun required_pass :: "jv \<Rightarrow> fcontext \<Rightarrow> vmsg list \<Rightarrow> jv list \<Rightarrow> error + vmsg list" where
  "required_pass data ctx messageArr [] = Inr messageArr"
| "required_pass data ctx messageArr (n # rest) =
     (case required_check data ctx messageArr n of
        Inl e \<Rightarrow> Inl e
      | Inr messageArr' \<Rightarrow> required_pass data ctx messageArr' rest)"

text \<open>
  The elements \<open>validations[i]\<close> for \<open>i < validations.length\<close>, of a truthy value: those
  of an array, the characters of a string, none otherwise.
\<close>

definition validation_items :: "jv \<Rightarrow> jv list" where
  "validation_items validations =
     (case validations of
        JArr vs \<Rightarrow> vs
      | JStr s \<Rightarrow> map (\<lambda>c. JStr [c]) s
      | _ \<Rightarrow> [])"

fun first_failing :: "jv \<Rightarrow> fcontext \<Rightarrow> string list \<Rightarrow> jv list \<Rightarrow> error + vmsg option" where
  "first_failing data ctx path [] = Inr None"
| "first_failing data ctx path (validation # rest) =
     (case resolve validation data ctx (TArr path) of
        Inl e \<Rightarrow> Inl e
      | Inr r \<Rightarrow>
          if r = JBool False
          then Inr (Some (join_with ''.'' path, jprop validation ''message''))
          else first_failing data ctx path rest)"

definition validateCustom :: "jv \<Rightarrow> jv \<Rightarrow> fcontext \<Rightarrow> string list \<Rightarrow> error + vmsg option" where
  "validateCustom configNode data ctx path =
     (let node = (if configNode = JUndef then JObj [] else configNode) in
      case member node ''validations'' of
        Inl e \<Rightarrow> Inl e
      | Inr validations \<Rightarrow>
          if \<not> truthy validations then Inr None
          else (case preconditionsMet node data ctx (TArr path) of
                  Inl e \<Rightarrow> Inl e
                | Inr met \<Rightarrow>
                    if truthy met \<and> \<not> isBlank (get_path data path)
                    then first_failing data ctx path (validation_items validations)
                    else Inr None))"

text \<open>\<open>find(messageArr, {path: s})\<close> finds a message whose path is \<open>s\<close>.\<close>

definition has_message :: "vmsg list \<Rightarrow> string \<Rightarrow> bool" where
  "has_message messageArr s = list_ex (\<lambda>m. fst m = s) messageArr"

definition applyCustomValidationIfFails ::
  "jv \<Rightarrow> jv \<Rightarrow> fcontext \<Rightarrow> string list \<Rightarrow> vmsg list \<Rightarrow> error + vmsg list" where
  "applyCustomValidationIfFails configNode data ctx path messageArr =
     (case validateCustom configNode data ctx path of
        Inl e \<Rightarrow> Inl e
      | Inr None \<Rightarrow> Inr messageArr
      | Inr (Some m) \<Rightarrow>
          Inr (if \<not> has_message messageArr (join_with ''.'' path) then messageArr @ [m]
               else messageArr))"

definition isLeaf :: "jv \<Rightarrow> bool" where
  "isLeaf v = (case v of JArr xs \<Rightarrow> xs = [] | JObj kvs \<Rightarrow> kvs = [] | _ \<Rightarrow> True)"

text \<open>The callback of the traversal of the section's data, over its visited nodes.\<close>

fun custom_pass ::
  "config \<Rightarrow> jv \<Rightarrow> fcontext \<Rightarrow> string \<Rightarrow> vmsg list \<Rightarrow> (string list \<times> jv) list \<Rightarrow> error + vmsg list" where
  "custom_pass cfg data ctx sectionId messageArr [] = Inr messageArr"
| "custom_pass cfg data ctx sectionId messageArr ((p, dataNode) # rest) =
     (let absolutePath = sectionId # p in
      if isLeaf dataNode
      then (case applyCustomValidationIfFails
                   (getConfigNodeByPath cfg (getRefPathForDataPath absolutePath))
                   data ctx absolutePath messageArr of
              Inl e \<Rightarrow> Inl e
            | Inr messageArr' \<Rightarrow> custom_pass cfg data ctx sectionId messageArr' rest)
      else custom_pass cfg data ctx sectionId messageArr rest)"

text \<open>
  One iteration of \<open>nodes.forEach\<close> in \<open>evaluateSectionStates\<close>. Section ids are
  strings; another value is taken by its text. The parameter \<open>data\<close> defaults to \<open>{}\<close>.
\<close>

definition section_messages :: "jv \<Rightarrow> config \<Rightarrow> fcontext \<Rightarrow> jv \<Rightarrow> error + (string \<times> vmsg list)" where
  "section_messages data cfg ctx node =
     (let data' = (if data = JUndef then JObj [] else data) in
      case member node ''id'' of
        Inl e \<Rightarrow> Inl e
      | Inr ident \<Rightarrow>
          (let sectionId = to_string ident in
           case required_pass data' ctx [] (map snd (walk [] node)) of
             Inl e \<Rightarrow> Inl e
           | Inr required \<Rightarrow>
               (case member data' sectionId of
                  Inl e \<Rightarrow> Inl e
                | Inr sectionData \<Rightarrow>
                    (case custom_pass cfg data' ctx sectionId required (walk [] sectionData) of
                       Inl e \<Rightarrow> Inl e
                     | Inr msgs \<Rightarrow> Inr (sectionId, msgs)))))"

fun section_loop :: "jv \<Rightarrow> config \<Rightarrow> fcontext \<Rightarrow> section_states \<Rightarrow> jv list \<Rightarrow> error + section_states" where
  "section_loop data cfg ctx result [] = Inr result"
| "section_loop data cfg ctx result (node # rest) =
     (case section_messages data cfg ctx node of
        Inl e \<Rightarrow> Inl e
      | Inr (sectionId, msgs) \<Rightarrow>
          section_loop data cfg ctx
            (result(sectionId \<mapsto>
               \<lparr> status = (if msgs \<noteq> [] then ''invalid'' else ''valid''),
                 validationMessages = msgs \<rparr>))
            rest)"

definition evaluateSectionStates :: "jv \<Rightarrow> config \<Rightarrow> fcontext \<Rightarrow> error + section_states" where
  "evaluateSectionStates data cfg ctx = section_loop data cfg ctx Map.empty (nodes cfg)"

subsection \<open>Two small sections\<close>

text \<open>
  A capability \<open>never\<close> that always answers \<open>false\<close>. A section \<open>s\<close> whose field \<open>tags\<close>
  is required and has a custom validation that calls \<open>never\<close>, with the data
  \<open>{s: {tags: []}}\<close>; and a section \<open>s\<close> with the rule on \<open>$.s.a.b\<close> only, with the data
  \<open>{s: {'a.b': 5, a: {b: 6}}}\<close>.
\<close>

definition never_ctx :: fcontext where
  "never_ctx k = (if k = ''never'' then Some (\<lambda>args. Inr (JBool False)) else None)"

definition tags_field :: jv where
  "tags_field =
     JObj [(''path'', JStr ''$.s.tags''), (''required'', JStr ''Tags are required''),
           (''validations'', JArr [JObj [(''fn'', JStr ''never''), (''message'', JStr ''Bad tags'')]])]"

definition tags_section :: jv where
  "tags_section = JObj [(''id'', JStr ''s''), (''fields'', JArr [tags_field])]"

definition tags_cfg :: config where
  "tags_cfg =
     \<lparr> getConfigNodeByPath = (\<lambda>p. if p = ''$.s.tags'' then tags_field else JUndef),
       nodes = [tags_section], edges = [], derived = [] \<rparr>"

definition tags_data :: jv where
  "tags_data = JObj [(''s'', JObj [(''tags'', JArr [])])]"

definition dotted_rule :: jv where
  "dotted_rule =
     JObj [(''path'', JStr ''$.s.a.b''),
           (''validations'', JArr [JObj [(''fn'', JStr ''never''), (''message'', JStr ''Bad value'')]])]"

definition dotted_section :: jv where
  "dotted_section = JObj [(''id'', JStr ''s''), (''fields'', JArr [dotted_rule])]"

definition dotted_cfg :: config where
  "dotted_cfg =
     \<lparr> getConfigNodeByPath = (\<lambda>p. if p = ''$.s.a.b'' then dotted_rule else JUndef),
       nodes = [dotted_section], edges = [], derived = [] \<rparr>"

definition dotted_data :: jv where
  "dotted_data = JObj [(''s'', JObj [(''a.b'', JNum 5), (''a'', JObj [(''b'', JNum 6)])])]"

subsection \<open>Well-formed trees and their children\<close>

text \<open>A tree is well formed when no object in it has a key twice.\<close>

fun wf_jv :: "jv \<Rightarrow> bool"
  and wf_elems :: "jv list \<Rightarrow> bool"
  and wf_props :: "(string \<times> jv) list \<Rightarrow> bool" where
  "wf_jv (JArr xs) = wf_elems xs"
| "wf_jv (JObj kvs) = (distinct (map fst kvs) \<and> wf_props kvs)"
| "wf_jv JUndef = True"
| "wf_jv JNull = True"
| "wf_jv (JBool b) = True"
| "wf_jv (JNum n) = True"
| "wf_jv (JStr s) = True"
| "wf_elems [] = True"
| "wf_elems (x # xs) = (wf_jv x \<and> wf_elems xs)"
| "wf_props [] = True"
| "wf_props ((k, x) # kvs) = (wf_jv x \<and> wf_props kvs)"

text \<open>The keys of a node with the values under them, in the order the traversal visits them.\<close>

fun index_from :: "nat \<Rightarrow> jv list \<Rightarrow> (string \<times> jv) list" where
  "index_from i [] = []"
| "index_from i (x # xs) = (string_of_nat i, x) # index_from (Suc i) xs"

definition children :: "jv \<Rightarrow> (string \<times> jv) list" where
  "children v = (case v of JObj kvs \<Rightarrow> kvs | JArr xs \<Rightarrow> index_from 0 xs | _ \<Rightarrow> [])"

definition under :: "string \<Rightarrow> (string list \<times> jv) list \<Rightarrow> (string list \<times> jv) list" where
  "under k w = map (\<lambda>(q, y). (k # q, y)) w"

subsection \<open>Two small data trees\<close>

text \<open>
  The tree \<open>{a: {b: 1, c: 2}, xs: [1, 2, 3]}\<close>; and a configuration in which \<open>$.a\<close>
  requires \<open>$.flag\<close> and \<open>$.a.b\<close> has a precondition on \<open>$.a\<close> that fails, with the data
  \<open>{flag: false, a: {b: 1, c: 2}}\<close>. The dependencies \<open>$.a.b\<close> on \<open>$.a\<close> on \<open>$.flag\<close> form a
  chain, so the pruning order is \<open>$.flag\<close>, \<open>$.a\<close>, \<open>$.a.b\<close>.
\<close>

definition sample_tree :: jv where
  "sample_tree =
     JObj [(''a'', JObj [(''b'', JNum 1), (''c'', JNum 2)]),
           (''xs'', JArr [JNum 1, JNum 2, JNum 3])]"

definition nested_data :: jv where
  "nested_data = JObj [(''flag'', JBool False), (''a'', JObj [(''b'', JNum 1), (''c'', JNum 2)])]"

definition nested_cfg :: config where
  "nested_cfg =
     \<lparr> getConfigNodeByPath =
         (\<lambda>p. if p = ''$.flag'' then JObj [(''path'', JStr ''$.flag'')]
              else if p = ''$.a'' then
                JObj [(''path'', JStr ''$.a''), (''preconditions'', JArr [JStr ''$.flag''])]
              else if p = ''$.a.b'' then
                JObj [(''path'', JStr ''$.a.b''),
                      (''preconditions'', JArr [JObj [(''fn'', JStr ''never''), (''args'', JArr [JStr ''$.a''])]])]
              else JUndef),
       nodes = [], edges = [], derived = [] \<rparr>"

definition nested_order :: "string list" where
  "nested_order = [''$.flag'', ''$.a'', ''$.a.b'']"

section \<open>The pruner on a heap of objects\<close>

text \<open>
  To speak about the caller's object, objects live in a heap: a cell per array or
  object, addressed by its index, holding primitive values and references. The heap
  only grows; a new cell takes the next address.
\<close>

datatype hval = HUndef | HNull | HBool bool | HNum int | HStr string | HRef nat

datatype hobj = HArr "hval list" | HObj "(string \<times> hval) list"

type_synonym heap = "hobj list"

text \<open>Building a tree in the heap, children first; the value returned stands for it.\<close>

fun store :: "jv \<Rightarrow> heap \<Rightarrow> hval \<times> heap"
  and store_elems :: "jv list \<Rightarrow> heap \<Rightarrow> hval list \<times> heap"
  and store_props :: "(string \<times> jv) list \<Rightarrow> heap \<Rightarrow> (string \<times> hval) list \<times> heap" where
  "store JUndef h = (HUndef, h)"
| "store JNull h = (HNull, h)"
| "store (JBool b) h = (HBool b, h)"
| "store (JNum n) h = (HNum n, h)"
| "store (JStr s) h = (HStr s, h)"
| "store (JArr xs) h = (let r = store_elems xs h in (HRef (length (snd r)), snd r @ [HArr (fst r)]))"
| "store (JObj kvs) h = (let r = store_props kvs h in (HRef (length (snd r)), snd r @ [HObj (fst r)]))"
| "store_elems [] h = ([], h)"
| "store_elems (x # xs) h =
     (let r = store x h; rs = store_elems xs (snd r) in (fst r # fst rs, snd rs))"
| "store_props [] h = ([], h)"
| "store_props ((k, x) # kvs) h =
     (let r = store x h; rs = store_props kvs (snd r) in ((k, fst r) # fst rs, snd rs))"

text \<open>
  Reading the tree a value stands for. The caller's data is a tree laid out as \<open>store\<close>
  lays it out, every reference pointing to a lower address; a reference that does not
  is read as \<open>undefined\<close>.
\<close>

function load :: "heap \<Rightarrow> nat \<Rightarrow> hval \<Rightarrow> jv" where
  "load h bound HUndef = JUndef"
| "load h bound HNull = JNull"
| "load h bound (HBool b) = JBool b"
| "load h bound (HNum n) = JNum n"
| "load h bound (HStr s) = JStr s"
| "load h bound (HRef a) =
     (if a < bound \<and> a < length h
      then (case h ! a of
              HArr vs \<Rightarrow> JArr (map (load h a) vs)
            | HObj ps \<Rightarrow> JObj (map (\<lambda>kv. (fst kv, load h a (snd kv))) ps))
      else JUndef)"
  by pat_completeness auto
termination
  by (relation "measure (\<lambda>(h, bound, v). bound)") auto

definition read_tree :: "heap \<Rightarrow> hval \<Rightarrow> jv" where
  "read_tree h v = load h (length h) v"

text \<open>\<open>cloneDeep(data)\<close>: a copy of the tree in new cells.\<close>

definition h_cloneDeep :: "hval \<Rightarrow> heap \<Rightarrow> hval \<times> heap" where
  "h_cloneDeep v h = store (read_tree h v) h"

text \<open>lodash \<open>set\<close> on the heap: \<open>assignValue\<close> writes one cell, \<open>baseSet\<close> walks the path.\<close>

definition h_isObject :: "heap \<Rightarrow> hval \<Rightarrow> bool" where
  "h_isObject h v = (case v of HRef a \<Rightarrow> a < length h | _ \<Rightarrow> False)"

definition cell_prop :: "hobj \<Rightarrow> string \<Rightarrow> hval" where
  "cell_prop c k =
     (case c of
        HObj ps \<Rightarrow> (case map_of ps k of Some v \<Rightarrow> v | None \<Rightarrow> HUndef)
      | HArr vs \<Rightarrow>
          (if k = ''length'' then HNum (int (length vs))
           else (case index_of_string k of
                   Some i \<Rightarrow> (if i < length vs then vs ! i else HUndef)
                 | None \<Rightarrow> HUndef)))"

definition cell_assign :: "hobj \<Rightarrow> string \<Rightarrow> hval \<Rightarrow> hobj" where
  "cell_assign c k v =
     (case c of
        HObj ps \<Rightarrow> HObj (if map_of ps k = None then obj_insert ps k v else obj_update ps k v)
      | HArr vs \<Rightarrow>
          (case index_of_string k of
             Some i \<Rightarrow>
               HArr (if i < length vs then vs[i := v]
                     else vs @ replicate (i - length vs) HUndef @ [v])
           | None \<Rightarrow> HArr vs))"

definition h_assignValue :: "heap \<Rightarrow> nat \<Rightarrow> string \<Rightarrow> hval \<Rightarrow> heap" where
  "h_assignValue h a k v = h[a := cell_assign (h ! a) k v]"

fun h_baseSet :: "heap \<Rightarrow> nat \<Rightarrow> string list \<Rightarrow> hval \<Rightarrow> heap" where
  "h_baseSet h nested [] v = h"
| "h_baseSet h nested [k] v = h_assignValue h nested k v"
| "h_baseSet h nested (k # k' # ks) v =
     (let objValue = cell_prop (h ! nested) k in
      if h_isObject h objValue
      then (case objValue of
              HRef b \<Rightarrow> h_baseSet (h_assignValue h nested k objValue) b (k' # ks) v
            | _ \<Rightarrow> h)
      else (let fresh = length h;
                h1 = h @ [if index_of_string k' \<noteq> None then HArr [] else HObj []];
                h2 = h_assignValue h1 nested k (HRef fresh)
            in h_baseSet h2 fresh (k' # ks) v))"

definition h_set :: "heap \<Rightarrow> hval \<Rightarrow> string list \<Rightarrow> hval \<Rightarrow> heap" where
  "h_set h object path v =
     (case object of
        HRef a \<Rightarrow> (if a < length h then h_baseSet h a path v else h)
      | _ \<Rightarrow> h)"

text \<open>
  \<open>pruneData\<close> on the heap. \<open>data\<close> is the caller's value and is read where the source
  reads it, from the heap as it is at that moment; \<open>result\<close> is the copy. The heap is
  returned together with the pruned value, or with the error thrown.
\<close>

fun h_pruneData_paths ::
  "config \<Rightarrow> hval \<Rightarrow> fcontext \<Rightarrow> string \<Rightarrow> hval \<Rightarrow> heap \<Rightarrow> string list list \<Rightarrow> heap \<times> error option" where
  "h_pruneData_paths cfg data ctx dep result h [] = (h, None)"
| "h_pruneData_paths cfg data ctx dep result h (path # paths) =
     (case preconditionsMet (getConfigNodeByPath cfg dep) (read_tree h data) ctx (TArr path) of
        Inl e \<Rightarrow> (h, Some e)
      | Inr met \<Rightarrow>
          h_pruneData_paths cfg data ctx dep result
            (if \<not> truthy met then h_set h result path HUndef else h) paths)"

fun h_pruneData_deps ::
  "config \<Rightarrow> hval \<Rightarrow> fcontext \<Rightarrow> hval \<Rightarrow> heap \<Rightarrow> string list \<Rightarrow> heap \<times> error option" where
  "h_pruneData_deps cfg data ctx result h [] = (h, None)"
| "h_pruneData_deps cfg data ctx result h (dep # deps) =
     (case h_pruneData_paths cfg data ctx dep result h
             (getDataPathsForRefPath dep (read_tree h data)) of
        (h', Some e) \<Rightarrow> (h', Some e)
      | (h', None) \<Rightarrow> h_pruneData_deps cfg data ctx result h' deps)"

definition h_pruneData ::
  "hval \<Rightarrow> heap \<Rightarrow> config \<Rightarrow> string list \<Rightarrow> fcontext \<Rightarrow> heap \<times> (error + hval)" where
  "h_pruneData data h cfg depOrder ctx =
     (let c = h_cloneDeep data h;
          r = h_pruneData_deps cfg data ctx (fst c) (snd c) depOrder
      in (fst r, case snd r of Some e \<Rightarrow> Inl e | None \<Rightarrow> Inr (fst c)))"

text \<open>
  \<open>getWorkflowState\<close> writes to objects only while pruning: the validator, the derived
  values and the graph evaluator read the pruned copy and build new objects. Its effect
  on the heap is that of \<open>pruneData\<close>.
\<close>

definition getWorkflowState_heap ::
  "hval \<Rightarrow> heap \<Rightarrow> config \<Rightarrow> string list \<Rightarrow> fcontext \<Rightarrow> heap" where
  "getWorkflowState_heap data h cfg preconditionOrder ctx =
     fst (h_pruneData data h cfg preconditionOrder ctx)"

text \<open>
  The cells from address \<open>n\<close> on are closed when every reference they hold points to a
  cell from \<open>n\<close> on that exists.
\<close>

definition cell_vals :: "hobj \<Rightarrow> hval list" where
  "cell_vals c = (case c of HArr vs \<Rightarrow> vs | HObj ps \<Rightarrow> map snd ps)"

definition points_above :: "nat \<Rightarrow> heap \<Rightarrow> hval \<Rightarrow> bool" where
  "points_above n h v = (case v of HRef b \<Rightarrow> n \<le> b \<and> b < length h | _ \<Rightarrow> True)"

definition closed_above :: "nat \<Rightarrow> heap \<Rightarrow> bool" where
  "closed_above n h =
     list_all (\<lambda>c. list_all (points_above n h) (cell_vals c)) (drop n h)"

section \<open>Properties of the path matcher\<close>

lemma foldl_conj_False:
  "foldl (\<lambda>memo x. memo \<and> P x) False xs = False"
  by (induction xs) auto

lemma foldl_conj_all:
  "foldl (\<lambda>memo x. memo \<and> P x) True xs = list_all P xs"
proof (induction xs)
  case Nil
  show ?case by simp
next
  case (Cons a xs)
  show ?case
  proof (cases "P a")
    case True
    with Cons show ?thesis by simp
  next
    case False
    then show ?thesis by (simp add: foldl_conj_False)
  qed
qed

lemma matches_iff:
  "matches rp dp = (length rp = length dp \<and> (\<forall>i < length rp. token_ok (rp ! i) (dp ! i)))"
proof -
  have "foldl (\<lambda>memo (index, token).
               memo \<and> (let d = dp ! index in d = token \<or> (token = ''*'' \<and> match_digit d)))
            True (enumerate 0 rp)
        = list_all (\<lambda>(index, token). token_ok token (dp ! index)) (enumerate 0 rp)"
    using foldl_conj_all [of "\<lambda>(index, token). token_ok token (dp ! index)" "enumerate 0 rp"]
    by (simp add: token_ok_def Let_def case_prod_beta)
  also have "\<dots> = (\<forall>i < length rp. token_ok (rp ! i) (dp ! i))"
    by (auto simp: list_all_iff in_set_enumerate_eq)
  finally show ?thesis by (simp add: matches_def)
qed

text \<open>
  C1. The first path of the object \<open>{a: {x1: 5}}\<close> under the pattern \<open>$.a.*\<close>: the key
  \<open>x1\<close> is not an integer index, and the matcher returns the path \<open>a.x1\<close>, because the
  test \<open>/\d/\<close> only asks for a digit somewhere in the token.
\<close>

theorem getDataPathsForRefPath_digit_key:
  "getDataPathsForRefPath ''$.a.*'' (JObj [(''a'', JObj [(''x1'', JNum 5)])]) = [[''a'', ''x1'']]
   \<and> \<not> is_index ''x1''"
  by (simp add: getDataPathsForRefPath_def traverse_paths_def matches_def match_digit_def
      is_digit_def is_index_def enumerate_eq_zip Let_def)

text \<open>
  C2. Resolving the sentinel \<open>$value\<close> with no target path (\<open>undefined\<close> or \<open>null\<close>)
  does not throw and writes one warning, but the value returned is the text \<open>$value\<close>
  itself, not \<open>undefined\<close>.
\<close>

theorem resolveString_value_no_target:
  "resolveString ''$value'' data ctx TUndef =
     ([''$value specified, but no targetPath defined''], Inr (JStr ''$value''))
   \<and> resolveString ''$value'' data ctx TNull =
     ([''$value specified, but no targetPath defined''], Inr (JStr ''$value''))
   \<and> JStr ''$value'' \<noteq> JUndef"
  by (simp add: resolveString_def tpath_truthy_def)

subsection \<open>Pattern and inverse\<close>

lemma split_on_nodot: "c \<notin> set t \<Longrightarrow> split_on c t = [t]"
  by (induction t) auto

lemma split_on_append:
  "c \<notin> set t \<Longrightarrow> split_on c (t @ c # rest) = t # split_on c rest"
  by (induction t) auto

lemma split_join:
  "ts \<noteq> [] \<Longrightarrow> \<forall>t\<in>set ts. CHR ''.'' \<notin> set t \<Longrightarrow> split_on (CHR ''.'') (join_with ''.'' ts) = ts"
proof (induction ts rule: induct_list012)
  case 1
  then show ?case by simp
next
  case (2 x)
  then show ?case by (simp add: split_on_nodot)
next
  case (3 x y ys)
  then show ?case by (simp add: split_on_append)
qed

lemma foldl_dot_append:
  "foldl (\<lambda>memo p. memo @ ''.'' @ f p) acc ps = acc @ concat (map (\<lambda>p. ''.'' @ f p) ps)"
  by (induction ps arbitrary: acc) auto

lemma concat_dot_join:
  "ts \<noteq> [] \<Longrightarrow> concat (map (\<lambda>t. ''.'' @ t) ts) = ''.'' @ join_with ''.'' ts"
  by (induction ts rule: induct_list012) auto

lemma is_prefix_iff: "is_prefix p s = (take (length p) s = p)"
  by (induction p s rule: is_prefix.induct) auto

lemma join_last:
  "ts \<noteq> [] \<Longrightarrow> \<exists>pre. ''$.'' @ join_with ''.'' ts = pre @ ''.'' @ last ts"
proof (induction ts rule: induct_list012)
  case 1
  then show ?case by simp
next
  case (2 x)
  show ?case by (rule exI [of _ "''$''"]) simp
next
  case (3 x y ys)
  then obtain pre where "''$.'' @ join_with ''.'' (y # ys) = pre @ ''.'' @ last (y # ys)" by auto
  then have "''$.'' @ join_with ''.'' (x # y # ys) = (''$.'' @ x @ drop 1 pre) @ ''.'' @ last (x # y # ys)"
    by (cases pre) auto
  then show ?case by blast
qed

lemma no_trailing_star:
  assumes "CHR ''.'' \<notin> set t" "t \<noteq> ''*''"
  shows "strip_trailing_star (pre @ ''.'' @ t) = pre @ ''.'' @ t"
proof (cases t rule: rev_cases)
  case Nil
  then show ?thesis by (simp add: strip_trailing_star_def)
next
  case (snoc ys y)
  show ?thesis
  proof (cases ys rule: rev_cases)
    case Nil
    with snoc assms show ?thesis by (simp add: strip_trailing_star_def)
  next
    case (snoc zs z)
    with \<open>t = ys @ [y]\<close> assms show ?thesis by (simp add: strip_trailing_star_def)
  qed
qed


lemma join_butlast:
  "butlast ts \<noteq> [] \<Longrightarrow> join_with ''.'' ts = join_with ''.'' (butlast ts) @ ''.'' @ last ts"
proof (induction ts rule: induct_list012)
  case 1
  then show ?case by simp
next
  case (2 x)
  then show ?case by simp
next
  case (3 x y zs)
  show ?case
  proof (cases zs)
    case Nil
    then show ?thesis by simp
  next
    case (Cons z zs')
    with 3 show ?thesis by simp
  qed
qed

lemma strip_trailing_star_drop: "strip_trailing_star (x @ ''.*'') = x"
  by (simp add: strip_trailing_star_def)

lemma built_pattern:
  assumes "p \<noteq> []"
  shows "foldl (\<lambda>memo t. memo @ ''.'' @ (if \<not> isNaN_str t then ''*'' else t)) ''$'' p
         = ''$.'' @ join_with ''.'' (map (\<lambda>t. if \<not> isNaN_str t then ''*'' else t) p)"
proof -
  let ?f = "\<lambda>t. if \<not> isNaN_str t then ''*'' else t"
  let ?ts = "map ?f p"
  have ts_ne: "?ts \<noteq> []" using assms by simp
  have "foldl (\<lambda>memo t. memo @ ''.'' @ ?f t) ''$'' p = ''$'' @ concat (map (\<lambda>t. ''.'' @ ?f t) p)"
    by (rule foldl_dot_append)
  also have "concat (map (\<lambda>t. ''.'' @ ?f t) p) = concat (map (\<lambda>t. ''.'' @ t) ?ts)"
    by (simp add: comp_def)
  also have "\<dots> = ''.'' @ join_with ''.'' ?ts"
    by (rule concat_dot_join [OF ts_ne])
  finally show ?thesis by simp
qed

lemma pattern_tokens_leaf:
  assumes ne: "p \<noteq> []"
    and nodot: "\<forall>t\<in>set p. isNaN_str t \<longrightarrow> CHR ''.'' \<notin> set t"
    and lastk: "isNaN_str (last p)" "last p \<noteq> ''*''"
  shows "split_on (CHR ''.'') (replace_first ''$.'' [] (getRefPathForDataPath p))
         = map (\<lambda>t. if \<not> isNaN_str t then ''*'' else t) p"
proof -
  let ?f = "\<lambda>t. if \<not> isNaN_str t then ''*'' else t"
  let ?ts = "map ?f p"
  have ts_ne: "?ts \<noteq> []" using ne by simp
  have ts_nodot: "\<forall>t\<in>set ?ts. CHR ''.'' \<notin> set t" using nodot by auto
  have last_ts: "last ?ts = last p" using ne lastk by (simp add: last_map)
  obtain pre where pre: "''$.'' @ join_with ''.'' ?ts = pre @ ''.'' @ last ?ts"
    using join_last [OF ts_ne] by blast
  have "CHR ''.'' \<notin> set (last ?ts)" using ts_nodot ts_ne last_in_set by blast
  then have "strip_trailing_star (pre @ ''.'' @ last ?ts) = pre @ ''.'' @ last ?ts"
    using lastk last_ts by (intro no_trailing_star) simp_all
  then have "getRefPathForDataPath p = ''$.'' @ join_with ''.'' ?ts"
    unfolding getRefPathForDataPath_def built_pattern [OF ne] using pre by simp
  then have "replace_first ''$.'' [] (getRefPathForDataPath p) = join_with ''.'' ?ts" by simp
  then show ?thesis using split_join [OF ts_ne ts_nodot] by simp
qed

lemma pattern_tokens_collapsed:
  assumes ne: "p \<noteq> []"
    and nodot: "\<forall>t\<in>set p. isNaN_str t \<longrightarrow> CHR ''.'' \<notin> set t"
    and lastk: "\<not> isNaN_str (last p) \<or> last p = ''*''"
  shows "split_on (CHR ''.'') (replace_first ''$.'' [] (getRefPathForDataPath p))
         = (if butlast p = [] then [''$'']
            else map (\<lambda>t. if \<not> isNaN_str t then ''*'' else t) (butlast p))"
proof -
  let ?f = "\<lambda>t. if \<not> isNaN_str t then ''*'' else t"
  let ?ts = "map ?f p"
  have last_ts: "last ?ts = ''*''" using ne lastk by (auto simp: last_map)
  show ?thesis
  proof (cases "butlast p = []")
    case True
    with ne obtain t where single: "p = [t]" by (cases p) (auto split: if_splits)
    with last_ts have "?ts = [''*'']" by simp
    then have "getRefPathForDataPath p = ''$''"
      unfolding getRefPathForDataPath_def built_pattern [OF ne]
      by (simp add: strip_trailing_star_def)
    with True show ?thesis by simp
  next
    case False
    let ?bs = "map ?f (butlast p)"
    have bs_ne: "?bs \<noteq> []" using False by simp
    have bs_nodot: "\<forall>t\<in>set ?bs. CHR ''.'' \<notin> set t"
      using nodot by (auto dest: in_set_butlastD)
    have "butlast ?ts = ?bs" by (simp add: map_butlast)
    with bs_ne join_butlast [of ?ts] last_ts
    have "join_with ''.'' ?ts = join_with ''.'' ?bs @ ''.*''" by simp
    then have "''$.'' @ join_with ''.'' ?ts = (''$.'' @ join_with ''.'' ?bs) @ ''.*''" by simp
    then have "getRefPathForDataPath p = ''$.'' @ join_with ''.'' ?bs"
      unfolding getRefPathForDataPath_def built_pattern [OF ne]
      by (simp only: strip_trailing_star_drop)
    then have "replace_first ''$.'' [] (getRefPathForDataPath p) = join_with ''.'' ?bs" by simp
    with False show ?thesis using split_join [OF bs_ne bs_nodot] by simp
  qed
qed

lemma dollar_not_numeric: "isNaN_str ''$''"
  by (simp add: isNaN_str_def trim_def is_ws_def is_decimal_def is_digit_def)

lemma digit_not_ws: "is_digit c \<Longrightarrow> \<not> is_ws c"
  by (auto simp: is_digit_def is_ws_def)

lemma digit_not_sign: "is_digit c \<Longrightarrow> c \<noteq> CHR ''+'' \<and> c \<noteq> CHR ''-''"
  by (auto simp: is_digit_def)

lemma is_index_match_digit: "is_index t \<Longrightarrow> match_digit t"
  by (cases t) (auto simp: is_index_def match_digit_def)

lemma dropWhile_keep_head: "xs \<noteq> [] \<Longrightarrow> \<not> P (hd xs) \<Longrightarrow> dropWhile P xs = xs"
  by (cases xs) simp_all

lemma index_is_numeric:
  assumes "is_index t"
  shows "\<not> isNaN_str t \<and> match_digit t"
proof -
  from assms have ne: "t \<noteq> []" and digits: "\<forall>c\<in>set t. is_digit c"
    by (auto simp: is_index_def list_all_iff)
  from ne digits have "is_digit (hd t)" "is_digit (last t)" by simp_all
  then have "\<not> is_ws (hd t)" "\<not> is_ws (last t)"
    by (simp_all add: digit_not_ws)
  with ne have "dropWhile is_ws t = t" "dropWhile is_ws (rev t) = rev t"
    by (simp_all add: dropWhile_keep_head hd_rev)
  then have trim: "trim t = t" by (simp add: trim_def)
  from ne digits have sign: "strip_sign t = t"
    using digit_not_sign by (cases t) auto
  from digits have tw: "takeWhile is_digit t = t" and dw: "dropWhile is_digit t = []" by auto
  have "is_decimal t" using ne by (simp add: is_decimal_def Let_def tw dw)
  with sign have "\<not> isNaN_str t" using trim by (simp add: isNaN_str_def)
  moreover from assms have "match_digit t" by (rule is_index_match_digit)
  ultimately show ?thesis by simp
qed

text \<open>
  C3 (as amended). Take a non-empty concrete path that exists in the tree, each of whose
  tokens is either numeric for \<open>isNaN\<close> and contains a digit (every array index is such
  a token, by \<open>index_is_numeric\<close>) or is not numeric and contains no dot. The paths
  matched by its canonical pattern include it exactly when its last token is not numeric
  and is not \<open>*\<close>: a path that ends in an array index is never among them, because the
  pattern drops the trailing \<open>.*\<close>.
\<close>

theorem roundtrip_iff_key_leaf:
  assumes ex: "p \<in> set (traverse_paths tree)"
    and ne: "p \<noteq> []"
    and toks: "\<forall>t\<in>set p. (isNaN_str t \<and> CHR ''.'' \<notin> set t) \<or> (\<not> isNaN_str t \<and> match_digit t)"
  shows "p \<in> set (getDataPathsForRefPath (getRefPathForDataPath p) tree)
         \<longleftrightarrow> isNaN_str (last p) \<and> last p \<noteq> ''*''"
proof (cases "isNaN_str (last p) \<and> last p \<noteq> ''*''")
  case True
  have nodot: "\<forall>t\<in>set p. isNaN_str t \<longrightarrow> CHR ''.'' \<notin> set t" using toks by auto
  let ?rp = "map (\<lambda>t. if \<not> isNaN_str t then ''*'' else t) p"
  have "matches ?rp p"
    unfolding matches_iff token_ok_def using toks by auto
  with ex True pattern_tokens_leaf [OF ne nodot] show ?thesis
    by (simp add: getDataPathsForRefPath_def)
next
  case False
  have nodot: "\<forall>t\<in>set p. isNaN_str t \<longrightarrow> CHR ''.'' \<notin> set t" using toks by auto
  from False have lastk: "\<not> isNaN_str (last p) \<or> last p = ''*''" by auto
  let ?rp = "split_on (CHR ''.'') (replace_first ''$.'' [] (getRefPathForDataPath p))"
  have "\<not> matches ?rp p"
  proof (cases "butlast p = []")
    case True
    with ne obtain t where single: "p = [t]" by (cases p) (auto split: if_splits)
    from lastk dollar_not_numeric single have "t \<noteq> ''$''" by auto
    moreover from True pattern_tokens_collapsed [OF ne nodot lastk] have "?rp = [''$'']" by simp
    ultimately show ?thesis
      unfolding single by (simp add: matches_def)
  next
    case nonempty: False
    with pattern_tokens_collapsed [OF ne nodot lastk]
    have "length ?rp = length (butlast p)" by simp
    moreover from ne have "length (butlast p) < length p" by (cases p) simp_all
    ultimately have "length ?rp \<noteq> length p" by linarith
    then show ?thesis by (simp add: matches_iff)
  qed
  with False show ?thesis by (simp add: getDataPathsForRefPath_def)
qed


theorem roundtrip_iff_key_leaf_witness:
  "[''a'', ''0'', ''b''] \<in> set (traverse_paths (JObj [(''a'', JArr [JObj [(''b'', JNum 7)]])]))
   \<and> [''a'', ''0'', ''b''] \<in>
       set (getDataPathsForRefPath (getRefPathForDataPath [''a'', ''0'', ''b''])
              (JObj [(''a'', JArr [JObj [(''b'', JNum 7)]])]))
   \<and> [''a'', ''-1'', ''b''] \<in> set (traverse_paths (JObj [(''a'', JObj [(''-1'', JObj [(''b'', JNum 7)])])]))
   \<and> [''a'', ''-1'', ''b''] \<in>
       set (getDataPathsForRefPath (getRefPathForDataPath [''a'', ''-1'', ''b''])
              (JObj [(''a'', JObj [(''-1'', JObj [(''b'', JNum 7)])])]))
   \<and> [''a'', ''0''] \<in> set (traverse_paths (JObj [(''a'', JArr [JNum 1])]))
   \<and> [''a'', ''0''] \<notin>
       set (getDataPathsForRefPath (getRefPathForDataPath [''a'', ''0'']) (JObj [(''a'', JArr [JNum 1])]))"
proof -
  note ev = is_index_def is_digit_def isNaN_str_def trim_def is_ws_def is_decimal_def
    match_digit_def traverse_paths_def string_of_nat.simps digit_char_def
  let ?t1 = "JObj [(''a'', JArr [JObj [(''b'', JNum 7)]])]"
  let ?t2 = "JObj [(''a'', JObj [(''-1'', JObj [(''b'', JNum 7)])])]"
  let ?t3 = "JObj [(''a'', JArr [JNum 1])]"
  have ex1: "[''a'', ''0'', ''b''] \<in> set (traverse_paths ?t1)" by (simp add: ev)
  have ex2: "[''a'', ''-1'', ''b''] \<in> set (traverse_paths ?t2)" by (simp add: ev)
  have ex3: "[''a'', ''0''] \<in> set (traverse_paths ?t3)" by (simp add: ev)
  have toks1: "\<forall>t\<in>set [''a'', ''0'', ''b''].
      (isNaN_str t \<and> CHR ''.'' \<notin> set t) \<or> (\<not> isNaN_str t \<and> match_digit t)"
    by (simp add: ev)
  have toks2: "\<forall>t\<in>set [''a'', ''-1'', ''b''].
      (isNaN_str t \<and> CHR ''.'' \<notin> set t) \<or> (\<not> isNaN_str t \<and> match_digit t)"
    by (simp add: ev)
  have toks3: "\<forall>t\<in>set [''a'', ''0''].
      (isNaN_str t \<and> CHR ''.'' \<notin> set t) \<or> (\<not> isNaN_str t \<and> match_digit t)"
    by (simp add: ev)
  have l1: "isNaN_str (last [''a'', ''0'', ''b'']) \<and> last [''a'', ''0'', ''b''] \<noteq> ''*''"
    by (simp add: ev)
  have l2: "isNaN_str (last [''a'', ''-1'', ''b'']) \<and> last [''a'', ''-1'', ''b''] \<noteq> ''*''"
    by (simp add: ev)
  have l3: "\<not> (isNaN_str (last [''a'', ''0'']) \<and> last [''a'', ''0''] \<noteq> ''*'')"
    by (simp add: ev)
  have r1: "[''a'', ''0'', ''b''] \<in>
       set (getDataPathsForRefPath (getRefPathForDataPath [''a'', ''0'', ''b'']) ?t1)"
    using roundtrip_iff_key_leaf [OF ex1 _ toks1] l1 by simp
  have r2: "[''a'', ''-1'', ''b''] \<in>
       set (getDataPathsForRefPath (getRefPathForDataPath [''a'', ''-1'', ''b'']) ?t2)"
    using roundtrip_iff_key_leaf [OF ex2 _ toks2] l2 by simp
  have r3: "[''a'', ''0''] \<notin>
       set (getDataPathsForRefPath (getRefPathForDataPath [''a'', ''0'']) ?t3)"
    using roundtrip_iff_key_leaf [OF ex3 _ toks3] l3 by simp
  from ex1 r1 ex2 r2 ex3 r3 show ?thesis by blast
qed

text \<open>
  A path that ends in an array index is not matched by its canonical pattern: the
  pattern drops the trailing \<open>.*\<close> and is one token shorter than the path.
\<close>

theorem roundtrip_trailing_index_counterexample:
  "[''a'', ''0''] \<in> set (traverse_paths (JObj [(''a'', JArr [JNum 1])]))
   \<and> is_index ''0''
   \<and> getRefPathForDataPath [''a'', ''0''] = ''$.a''
   \<and> [''a'', ''0''] \<notin>
       set (getDataPathsForRefPath (getRefPathForDataPath [''a'', ''0'']) (JObj [(''a'', JArr [JNum 1])]))"
  by (simp add: traverse_paths_def string_of_nat.simps digit_char_def is_index_def is_digit_def
      getRefPathForDataPath_def strip_trailing_star_def isNaN_str_def trim_def is_ws_def
      is_decimal_def getDataPathsForRefPath_def matches_def enumerate_eq_zip)

section \<open>Properties of the pruner\<close>

lemma clear_all_append: "clear_all r (ps @ qs) = clear_all (clear_all r ps) qs"
  by (simp add: clear_all_def)

lemma clear_all_Cons: "clear_all r (p # ps) = clear_all (set_path r p JUndef) ps"
  by (simp add: clear_all_def)

lemma pruneData_paths_decisions:
  "pruneData_paths cfg data ctx dep result paths =
     (case unmet_paths cfg data ctx dep paths of
        Inl e \<Rightarrow> Inl e
      | Inr ps \<Rightarrow> Inr (clear_all result ps))"
proof (induction paths arbitrary: result)
  case Nil
  show ?case by (simp add: clear_all_def)
next
  case (Cons path paths)
  show ?case
    by (simp add: Cons.IH clear_all_Cons split: sum.splits)
qed

lemma pruneData_deps_decisions:
  "pruneData_deps cfg data ctx result deps =
     (case pruning_decisions cfg data ctx deps of
        Inl e \<Rightarrow> Inl e
      | Inr ps \<Rightarrow> Inr (clear_all result ps))"
proof (induction deps arbitrary: result)
  case Nil
  show ?case by (simp add: clear_all_def)
next
  case (Cons dep deps)
  show ?case
    by (simp add: Cons.IH pruneData_paths_decisions clear_all_append split: sum.splits)
qed

text \<open>
  C4. \<open>pruneData\<close> returns the input with a list of paths cleared, and that list (which
  paths each pattern matches, and whether the preconditions hold there) is computed from
  the input snapshot alone: whatever the partially pruned result is when a dependency is
  reached, the paths cleared from there on are the same.
\<close>

theorem pruneData_decided_on_input:
  "pruneData data cfg depOrder ctx =
     (case pruning_decisions cfg data ctx depOrder of
        Inl e \<Rightarrow> Inl e
      | Inr ps \<Rightarrow> Inr (clear_all data ps))
   \<and> pruneData_deps cfg data ctx result deps =
     (case pruning_decisions cfg data ctx deps of
        Inl e \<Rightarrow> Inl e
      | Inr ps \<Rightarrow> Inr (clear_all result ps))"
  by (simp add: pruneData_def cloneDeep_def pruneData_deps_decisions)

section \<open>Properties of the graph evaluator\<close>

lemma is_string_key: "is_string x \<Longrightarrow> is_string y \<Longrightarrow> to_string x = to_string y \<Longrightarrow> x = y"
  by (cases x; cases y) (simp_all add: is_string_def)

lemma node_step_frontier:
  "node_step cfg data ctx ss (Some m, True) x =
     Inr (Some (m(to_string x \<mapsto> JStr (if isTerminalNodePath x then ''active'' else ''inactive''))), True)"
  by (simp add: node_step_def assign_status_def Let_def)

lemma node_steps_frontier:
  "\<exists>M. node_steps cfg data ctx ss (Some m, True) post = Inr (Some M, True)
       \<and> (\<forall>k. k \<notin> to_string ` set post \<longrightarrow> M k = m k)"
proof (induction post arbitrary: m)
  case Nil
  show ?case by simp
next
  case (Cons x post)
  let ?m = "m(to_string x \<mapsto> JStr (if isTerminalNodePath x then ''active'' else ''inactive''))"
  from Cons.IH [of ?m] obtain M where
    M: "node_steps cfg data ctx ss (Some ?m, True) post = Inr (Some M, True)"
       "\<forall>k. k \<notin> to_string ` set post \<longrightarrow> M k = ?m k" by blast
  show ?case
    using M by (intro exI [of _ M]) (simp add: node_step_frontier)
qed

lemma node_steps_frontier_status:
  assumes "node_steps cfg data ctx ss (Some m, True) post = Inr (Some M, fr)"
    and "\<forall>x\<in>set post. is_string x"
    and "x \<in> set post"
  shows "M (to_string x) = Some (JStr (if isTerminalNodePath x then ''active'' else ''inactive''))"
  using assms
proof (induction post arbitrary: m)
  case Nil
  then show ?case by simp
next
  case (Cons y post)
  let ?m = "m(to_string y \<mapsto> JStr (if isTerminalNodePath y then ''active'' else ''inactive''))"
  from Cons.prems(1) have run: "node_steps cfg data ctx ss (Some ?m, True) post = Inr (Some M, fr)"
    by (simp add: node_step_frontier)
  show ?case
  proof (cases "x \<in> set post")
    case True
    with Cons.IH [OF run] Cons.prems(2) show ?thesis by simp
  next
    case False
    with Cons.prems(3) have xy: "x = y" by simp
    have "to_string x \<notin> to_string ` set post"
    proof
      assume "to_string x \<in> to_string ` set post"
      then obtain z where z: "z \<in> set post" "to_string x = to_string z" by blast
      with Cons.prems(2,3) have "x = z" by (intro is_string_key) auto
      with z False show False by simp
    qed
    moreover from node_steps_frontier [of cfg data ctx ss ?m post] run
    have "\<forall>k. k \<notin> to_string ` set post \<longrightarrow> M k = ?m k" by simp
    ultimately show ?thesis using xy by simp
  qed
qed

lemma node_steps_append:
  "node_steps cfg data ctx ss acc (xs @ ys) =
     (case node_steps cfg data ctx ss acc xs of
        Inl e \<Rightarrow> Inl e
      | Inr acc' \<Rightarrow> node_steps cfg data ctx ss acc' ys)"
  by (induction xs arbitrary: acc) (auto split: sum.splits)


lemma node_step_Some:
  assumes "node_step cfg data ctx ss acc y = Inr (Some m', fr')"
  shows "\<exists>m v. fst acc = Some m \<and> m' = m(to_string y \<mapsto> v)
               \<and> (isTerminalNodePath y \<longrightarrow> v = JStr ''active'')"
proof (cases "fst acc")
  case None
  with assms show ?thesis
    by (auto simp: node_step_def assign_status_def Let_def member_def
        split: if_splits sum.splits option.splits jv.splits)
next
  case (Some m)
  with assms show ?thesis
    by (auto simp: node_step_def assign_status_def Let_def member_def
        split: if_splits sum.splits option.splits jv.splits)
qed

lemma node_steps_None:
  "fst acc = None \<Longrightarrow> node_steps cfg data ctx ss acc xs \<noteq> Inr (Some M, fr)"
proof (induction xs arbitrary: acc)
  case Nil
  then show ?case by (cases acc) auto
next
  case (Cons y xs)
  show ?case
  proof
    assume run: "node_steps cfg data ctx ss acc (y # xs) = Inr (Some M, fr)"
    then obtain acc' where
      step: "node_step cfg data ctx ss acc y = Inr acc'"
      and rest: "node_steps cfg data ctx ss acc' xs = Inr (Some M, fr)"
      by (auto split: sum.splits)
    have "fst acc' = None"
    proof (cases "fst acc'")
      case None
      then show ?thesis .
    next
      case (Some m')
      then have "acc' = (Some m', snd acc')" by (cases acc') simp
      with step node_step_Some [of cfg data ctx ss acc y m' "snd acc'"] Cons.prems
      show ?thesis by auto
    qed
    from Cons.IH [OF this] rest show False by simp
  qed
qed

lemma terminal_key:
  "is_string y \<Longrightarrow> k = ''START'' \<or> k = ''END'' \<Longrightarrow> to_string y = k \<Longrightarrow> isTerminalNodePath y"
  by (cases y) (auto simp: is_string_def isTerminalNodePath_def)

lemma node_steps_terminal:
  assumes "node_steps cfg data ctx ss acc xs = Inr (Some M, fr)"
    and "\<forall>x\<in>set xs. is_string x"
    and "k = ''START'' \<or> k = ''END''"
    and "(\<exists>m. fst acc = Some m \<and> m k = Some (JStr ''active'')) \<or> JStr k \<in> set xs"
  shows "M k = Some (JStr ''active'')"
  using assms
proof (induction xs arbitrary: acc)
  case Nil
  then show ?case by auto
next
  case (Cons y xs)
  from Cons.prems(1) obtain acc' where
    step: "node_step cfg data ctx ss acc y = Inr acc'"
    and rest: "node_steps cfg data ctx ss acc' xs = Inr (Some M, fr)"
    by (auto split: sum.splits)
  show ?case
  proof (cases "JStr k \<in> set xs")
    case True
    with Cons.IH [OF rest] Cons.prems(2,3) show ?thesis by simp
  next
    case False
    obtain mo fr' where acc': "acc' = (mo, fr')" by (cases acc')
    show ?thesis
    proof (cases mo)
      case None
      with rest acc' node_steps_None [of acc' cfg data ctx ss xs M fr]
      show ?thesis by simp
    next
      case (Some m')
      with step acc' obtain m v where
        mv: "fst acc = Some m" "m' = m(to_string y \<mapsto> v)"
            "isTerminalNodePath y \<longrightarrow> v = JStr ''active''"
        using node_step_Some by blast
      have "m' k = Some (JStr ''active'')"
      proof (cases "to_string y = k")
        case True
        with Cons.prems(2,3) have "isTerminalNodePath y"
          by (intro terminal_key [of y k]) auto
        with mv True show ?thesis by simp
      next
        case neq: False
        then have "y \<noteq> JStr k" by auto
        with Cons.prems(4) False mv(1) have "m k = Some (JStr ''active'')" by auto
        with mv neq show ?thesis by simp
      qed
      with Cons.IH [OF rest] Cons.prems(2,3) acc' Some show ?thesis by simp
    qed
  qed
qed


lemma node_steps_frontier_indep:
  "node_steps cfg' data' ctx' ss' (Some m, True) post = node_steps cfg data ctx ss (Some m, True) post"
  by (induction post arbitrary: m) (simp_all add: node_step_frontier)

lemma node_step_invalid_section:
  assumes "\<not> isTerminalNodePath n"
    and "jprop (getConfigNodeByPath cfg (''$.'' @ to_string n)) ''type'' = JStr ''input_section''"
    and "jprop (getConfigNodeByPath cfg (''$.'' @ to_string n)) ''id'' = JStr ident"
    and "ss (replace_first ''$.'' [] ident) = Some st" and "status st \<noteq> ''valid''"
  shows "node_step cfg data ctx ss (Some m, False) n =
           Inr (Some (m(to_string n \<mapsto> JStr ''inactive'')), True)"
proof -
  have "\<not> nullish (getConfigNodeByPath cfg (''$.'' @ to_string n))"
    using assms(2) by (auto simp: nullish_def)
  then show ?thesis
    using assms by (simp add: node_step_def assign_status_def Let_def member_def)
qed

lemma edge_status_base:
  assumes "member edge ''from'' = Inr f"
    and "jprop (getConfigNodeByPath cfg (''$.'' @ to_string f)) ''type'' \<noteq> JStr ''decision''
         \<or> M (to_string f) = Some (JStr ''inactive'')"
  shows "edge_status cfg (Some M) edge = Inr (case M (to_string f) of Some v \<Rightarrow> v | None \<Rightarrow> JUndef)"
  using assms by (auto simp: edge_status_def Let_def)

text \<open>
  C5. Let the evaluation order be \<open>pre @ n # post\<close>, all node paths strings, where the
  nodes of \<open>pre\<close> are evaluated without finding a frontier and \<open>n\<close> is an input
  section whose section state is not valid. Then the reduce succeeds with the frontier
  found; \<open>n\<close> is inactive; every node of \<open>post\<close> is inactive unless it is \<open>START\<close> or
  \<open>END\<close>; \<open>START\<close> and \<open>END\<close> are active wherever they stand; the statuses after \<open>n\<close> are
  the same for every configuration, data, context and section states (no rule is
  evaluated); and an edge whose from-node is not a decision node, or is inactive, has
  the status of its from-node.
\<close>

theorem frontier_blocks_later_nodes:
  assumes strs: "\<forall>x\<in>set (pre @ n # post). is_string x"
    and pre: "node_steps cfg data ctx ss (Some Map.empty, False) pre = Inr (Some m, False)"
    and nt: "\<not> isTerminalNodePath n"
    and ty: "jprop (getConfigNodeByPath cfg (''$.'' @ to_string n)) ''type'' = JStr ''input_section''"
    and ident: "jprop (getConfigNodeByPath cfg (''$.'' @ to_string n)) ''id'' = JStr ident"
    and st: "ss (replace_first ''$.'' [] ident) = Some st" "status st \<noteq> ''valid''"
  shows "\<exists>M. node_steps cfg data ctx ss (Some Map.empty, False) (pre @ n # post) = Inr (Some M, True)
      \<and> M (to_string n) = Some (JStr ''inactive'')
      \<and> (\<forall>x\<in>set post. M (to_string x) =
            Some (JStr (if isTerminalNodePath x then ''active'' else ''inactive'')))
      \<and> (\<forall>x\<in>set (pre @ n # post). isTerminalNodePath x \<longrightarrow> M (to_string x) = Some (JStr ''active''))
      \<and> (\<forall>cfg' data' ctx' ss'.
            node_steps cfg' data' ctx' ss' (Some (m(to_string n \<mapsto> JStr ''inactive'')), True) post
              = Inr (Some M, True))
      \<and> (\<forall>edge f. member edge ''from'' = Inr f
            \<and> (jprop (getConfigNodeByPath cfg (''$.'' @ to_string f)) ''type'' \<noteq> JStr ''decision''
                 \<or> M (to_string f) = Some (JStr ''inactive''))
            \<longrightarrow> edge_status cfg (Some M) edge =
                  Inr (case M (to_string f) of Some v \<Rightarrow> v | None \<Rightarrow> JUndef))"
proof -
  let ?m = "m(to_string n \<mapsto> JStr ''inactive'')"
  have step: "node_step cfg data ctx ss (Some m, False) n = Inr (Some ?m, True)"
    using nt ty ident st by (rule node_step_invalid_section)
  obtain M where
    M: "node_steps cfg data ctx ss (Some ?m, True) post = Inr (Some M, True)"
    and frame: "\<forall>k. k \<notin> to_string ` set post \<longrightarrow> M k = ?m k"
    using node_steps_frontier [of cfg data ctx ss ?m post] by blast
  have run: "node_steps cfg data ctx ss (Some Map.empty, False) (pre @ n # post) = Inr (Some M, True)"
    using pre step M by (simp add: node_steps_append)
  have strs_post: "\<forall>x\<in>set post. is_string x" using strs by simp
  have post_status: "\<forall>x\<in>set post. M (to_string x) =
      Some (JStr (if isTerminalNodePath x then ''active'' else ''inactive''))"
    using node_steps_frontier_status [OF M strs_post] by blast
  have n_status: "M (to_string n) = Some (JStr ''inactive'')"
  proof (cases "n \<in> set post")
    case True
    with post_status nt show ?thesis by auto
  next
    case False
    have "to_string n \<notin> to_string ` set post"
    proof
      assume "to_string n \<in> to_string ` set post"
      then obtain z where z: "z \<in> set post" "to_string n = to_string z" by blast
      with strs have "n = z" by (intro is_string_key) auto
      with z False show False by simp
    qed
    with frame show ?thesis by simp
  qed
  have terminals: "\<forall>x\<in>set (pre @ n # post). isTerminalNodePath x \<longrightarrow> M (to_string x) = Some (JStr ''active'')"
  proof (intro ballI impI)
    fix x assume x: "x \<in> set (pre @ n # post)" and t: "isTerminalNodePath x"
    from t obtain k where k: "x = JStr k" "k = ''START'' \<or> k = ''END''"
      by (auto simp: isTerminalNodePath_def)
    from node_steps_terminal [OF run strs k(2)] x k(1)
    show "M (to_string x) = Some (JStr ''active'')" by simp
  qed
  have indep: "\<forall>cfg' data' ctx' ss'.
      node_steps cfg' data' ctx' ss' (Some ?m, True) post = Inr (Some M, True)"
  proof (intro allI)
    fix cfg' :: config and data' ctx' and ss' :: section_states
    have "node_steps cfg' data' ctx' ss' (Some ?m, True) post
          = node_steps cfg data ctx ss (Some ?m, True) post"
      by (rule node_steps_frontier_indep)
    with M show "node_steps cfg' data' ctx' ss' (Some ?m, True) post = Inr (Some M, True)"
      by simp
  qed
  have edges: "\<forall>edge f. member edge ''from'' = Inr f
            \<and> (jprop (getConfigNodeByPath cfg (''$.'' @ to_string f)) ''type'' \<noteq> JStr ''decision''
                 \<or> M (to_string f) = Some (JStr ''inactive''))
            \<longrightarrow> edge_status cfg (Some M) edge =
                  Inr (case M (to_string f) of Some v \<Rightarrow> v | None \<Rightarrow> JUndef)"
    using edge_status_base by blast
  from run n_status post_status terminals indep edges show ?thesis by blast
qed


theorem frontier_blocks_later_nodes_witness:
  "(\<exists>M. node_steps chain_cfg (JObj []) no_capabilities chain_states (Some Map.empty, False)
           [JStr ''START'', JStr ''S1'', JStr ''S2'', JStr ''END''] = Inr (Some M, True)
        \<and> M ''S1'' = Some (JStr ''inactive'') \<and> M ''S2'' = Some (JStr ''inactive'')
        \<and> M ''START'' = Some (JStr ''active'') \<and> M ''END'' = Some (JStr ''active''))
   \<and> evaluateEdgeStates chain_topo (JObj []) chain_cfg no_capabilities chain_states =
       Inr [JObj [(''from'', JStr ''START''), (''to'', JStr ''S1''), (''status'', JStr ''active'')],
            JObj [(''from'', JStr ''S1''), (''to'', JStr ''S2''), (''status'', JStr ''inactive'')],
            JObj [(''from'', JStr ''S2''), (''to'', JStr ''END''), (''status'', JStr ''inactive'')]]"
proof -
  let ?m = "[''START'' \<mapsto> JStr ''active'']"
  have strs: "\<forall>x\<in>set ([JStr ''START''] @ JStr ''S1'' # [JStr ''S2'', JStr ''END'']). is_string x"
    by (simp add: is_string_def)
  have pre: "node_steps chain_cfg (JObj []) no_capabilities chain_states (Some Map.empty, False)
               [JStr ''START''] = Inr (Some ?m, False)"
    by (simp add: node_step_def isTerminalNodePath_def assign_status_def)
  have nt: "\<not> isTerminalNodePath (JStr ''S1'')" by (simp add: isTerminalNodePath_def)
  have ty: "jprop (getConfigNodeByPath chain_cfg (''$.'' @ to_string (JStr ''S1''))) ''type''
              = JStr ''input_section''"
    by (simp add: chain_cfg_def section_node_def)
  have ident: "jprop (getConfigNodeByPath chain_cfg (''$.'' @ to_string (JStr ''S1''))) ''id'' = JStr ''S1''"
    by (simp add: chain_cfg_def section_node_def)
  have st: "chain_states (replace_first ''$.'' [] ''S1'')
              = Some \<lparr> status = ''invalid'', validationMessages = [(''S1.name'', JStr ''required'')] \<rparr>"
    by (simp add: chain_states_def)
  have bad: "status \<lparr> status = ''invalid'', validationMessages = [(''S1.name'', JStr ''required'')] \<rparr> \<noteq> ''valid''"
    by simp
  from frontier_blocks_later_nodes [OF strs pre nt ty ident st bad]
  obtain M where
    run: "node_steps chain_cfg (JObj []) no_capabilities chain_states (Some Map.empty, False)
            ([JStr ''START''] @ JStr ''S1'' # [JStr ''S2'', JStr ''END'']) = Inr (Some M, True)"
    and s1: "M (to_string (JStr ''S1'')) = Some (JStr ''inactive'')"
    and post: "\<forall>x\<in>set [JStr ''S2'', JStr ''END'']. M (to_string x) =
            Some (JStr (if isTerminalNodePath x then ''active'' else ''inactive''))"
    and terminals: "\<forall>x\<in>set ([JStr ''START''] @ JStr ''S1'' # [JStr ''S2'', JStr ''END'']).
            isTerminalNodePath x \<longrightarrow> M (to_string x) = Some (JStr ''active'')"
    by blast
  have first: "\<exists>M. node_steps chain_cfg (JObj []) no_capabilities chain_states (Some Map.empty, False)
           [JStr ''START'', JStr ''S1'', JStr ''S2'', JStr ''END''] = Inr (Some M, True)
        \<and> M ''S1'' = Some (JStr ''inactive'') \<and> M ''S2'' = Some (JStr ''inactive'')
        \<and> M ''START'' = Some (JStr ''active'') \<and> M ''END'' = Some (JStr ''active'')"
    using run s1 post terminals by (intro exI [of _ M]) (simp add: isTerminalNodePath_def)
  have second: "evaluateEdgeStates chain_topo (JObj []) chain_cfg no_capabilities chain_states =
       Inr [JObj [(''from'', JStr ''START''), (''to'', JStr ''S1''), (''status'', JStr ''active'')],
            JObj [(''from'', JStr ''S1''), (''to'', JStr ''S2''), (''status'', JStr ''inactive'')],
            JObj [(''from'', JStr ''S2''), (''to'', JStr ''END''), (''status'', JStr ''inactive'')]]"
    by (simp add: evaluateEdgeStates_def getNodeEvaluationOrder_def chain_topo_def chain_cfg_def
        mk_edge_def section_node_def member_def nullish_def node_step_def isTerminalNodePath_def
        assign_status_def chain_states_def edge_status_def with_status_def assignValue_def
        index_of_string_def is_index_def is_digit_def Let_def)
  from first second show ?thesis by blast
qed


text \<open>
  C6. For an edge leaving a decision node whose output resolves to \<open>v\<close>: evaluating the
  node before any frontier records \<open>v\<close> as its status, and when the recorded status is
  \<open>v\<close> and not the text \<open>inactive\<close>, the edge is active iff the truthiness of \<open>v\<close> equals
  that of the edge's \<open>when_input_is\<close> tag, and inactive otherwise.
\<close>

theorem decision_edge_status:
  assumes src: "member edge ''from'' = Inr f"
    and nt: "\<not> isTerminalNodePath f"
    and dec: "jprop (getConfigNodeByPath cfg (''$.'' @ to_string f)) ''type'' = JStr ''decision''"
    and out: "resolve (jprop (getConfigNodeByPath cfg (''$.'' @ to_string f)) ''output'') data ctx TNull = Inr v"
    and rec: "M (to_string f) = Some v"
    and live: "v \<noteq> JStr ''inactive''"
  shows "node_step cfg data ctx ss (Some m, False) f = Inr (Some (m(to_string f \<mapsto> v)), False)
       \<and> edge_status cfg (Some M) edge =
           Inr (JStr (if truthy v = truthy (jprop edge ''when_input_is'') then ''active'' else ''inactive''))"
proof -
  let ?node = "getConfigNodeByPath cfg (''$.'' @ to_string f)"
  from dec have obj: "\<not> nullish ?node" "truthy ?node"
    by (cases ?node; auto simp: nullish_def split: if_splits option.splits)+
  have step: "node_step cfg data ctx ss (Some m, False) f = Inr (Some (m(to_string f \<mapsto> v)), False)"
    using nt dec out obj by (simp add: node_step_def assign_status_def Let_def member_def)
  have edge: "edge_status cfg (Some M) edge =
           Inr (JStr (if truthy v = truthy (jprop edge ''when_input_is'') then ''active'' else ''inactive''))"
    using src dec rec live obj by (simp add: edge_status_def Let_def)
  from step edge show ?thesis by simp
qed

theorem decision_edge_status_witness:
  "edge_status decision_cfg (Some [''START'' \<mapsto> JStr ''active'', ''D'' \<mapsto> JBool True])
      (mk_branch ''D'' ''X'' True) = Inr (JStr ''active'')
   \<and> edge_status decision_cfg (Some [''START'' \<mapsto> JStr ''active'', ''D'' \<mapsto> JBool True])
      (mk_branch ''D'' ''Y'' False) = Inr (JStr ''inactive'')
   \<and> evaluateEdgeStates decision_topo (JObj []) decision_cfg no_capabilities decision_states =
       Inr [JObj [(''from'', JStr ''START''), (''to'', JStr ''D''), (''status'', JStr ''active'')],
            JObj [(''from'', JStr ''D''), (''to'', JStr ''X''), (''when_input_is'', JBool True),
                  (''status'', JStr ''active'')],
            JObj [(''from'', JStr ''D''), (''to'', JStr ''Y''), (''when_input_is'', JBool False),
                  (''status'', JStr ''inactive'')],
            JObj [(''from'', JStr ''X''), (''to'', JStr ''END''), (''status'', JStr ''active'')],
            JObj [(''from'', JStr ''Y''), (''to'', JStr ''END''), (''status'', JStr ''active'')]]"
proof -
  let ?M = "[''START'' \<mapsto> JStr ''active'', ''D'' \<mapsto> JBool True]"
  have nt: "\<not> isTerminalNodePath (JStr ''D'')" by (simp add: isTerminalNodePath_def)
  have dec: "jprop (getConfigNodeByPath decision_cfg (''$.'' @ to_string (JStr ''D''))) ''type'' = JStr ''decision''"
    by (simp add: decision_cfg_def)
  have out: "resolve (jprop (getConfigNodeByPath decision_cfg (''$.'' @ to_string (JStr ''D''))) ''output'')
               (JObj []) no_capabilities TNull = Inr (JBool True)"
    by (simp add: decision_cfg_def resolve.simps nullish_def no_capabilities_def)
  have rec: "?M (to_string (JStr ''D'')) = Some (JBool True)" by simp
  have live: "JBool True \<noteq> JStr ''inactive''" by simp
  have x: "member (mk_branch ''D'' ''X'' True) ''from'' = Inr (JStr ''D'')"
    by (simp add: member_def mk_branch_def nullish_def)
  have y: "member (mk_branch ''D'' ''Y'' False) ''from'' = Inr (JStr ''D'')"
    by (simp add: member_def mk_branch_def nullish_def)
  have ex: "edge_status decision_cfg (Some ?M) (mk_branch ''D'' ''X'' True) = Inr (JStr ''active'')"
    using decision_edge_status [where M = ?M and f = "JStr ''D''", OF x nt dec out rec live] by (simp add: mk_branch_def)
  have ey: "edge_status decision_cfg (Some ?M) (mk_branch ''D'' ''Y'' False) = Inr (JStr ''inactive'')"
    using decision_edge_status [where M = ?M and f = "JStr ''D''", OF y nt dec out rec live] by (simp add: mk_branch_def)
  have all: "evaluateEdgeStates decision_topo (JObj []) decision_cfg no_capabilities decision_states =
       Inr [JObj [(''from'', JStr ''START''), (''to'', JStr ''D''), (''status'', JStr ''active'')],
            JObj [(''from'', JStr ''D''), (''to'', JStr ''X''), (''when_input_is'', JBool True),
                  (''status'', JStr ''active'')],
            JObj [(''from'', JStr ''D''), (''to'', JStr ''Y''), (''when_input_is'', JBool False),
                  (''status'', JStr ''inactive'')],
            JObj [(''from'', JStr ''X''), (''to'', JStr ''END''), (''status'', JStr ''active'')],
            JObj [(''from'', JStr ''Y''), (''to'', JStr ''END''), (''status'', JStr ''active'')]]"
    by (simp add: evaluateEdgeStates_def getNodeEvaluationOrder_def decision_topo_def decision_cfg_def
        mk_edge_def mk_branch_def section_node_def member_def nullish_def node_step_def
        isTerminalNodePath_def assign_status_def decision_states_def edge_status_def with_status_def
        assignValue_def index_of_string_def is_index_def is_digit_def Let_def resolve.simps
        no_capabilities_def)
  from ex ey all show ?thesis by blast
qed

section \<open>Properties of the section validator\<close>

lemma resolve_string_plain:
  "ctx ''undefined'' = None \<Longrightarrow> resolve (JStr s) data ctx t = snd (resolveString s data ctx t)"
  by (simp add: resolve.simps nullish_def index_of_string_def is_index_def is_digit_def)

text \<open>
  C9. Every required check goes through \<open>validateRequired\<close>, which resolves the
  required rule with an undefined target path, while the preconditions and the blank
  test are taken at the path under check. So a required rule \<open>$value\<close> yields its own
  text as the message at every path where the data is blank, never the value at that
  path; the resolved message is the same for every path; and a \<open>^\<close> token is replaced by
  the empty token, not by a token of the path.
\<close>

theorem validateRequired_resolves_without_path:
  "validateRequired configNode data ctx path =
     (case member configNode ''required'' of
        Inl e \<Rightarrow> Inl e
      | Inr required \<Rightarrow>
          (case resolve required data ctx TUndef of
             Inl e \<Rightarrow> Inl e
           | Inr resolved \<Rightarrow>
               (case (case resolved of
                        JArr rs \<Rightarrow> required_reduce required (JBool False) 0 rs
                      | _ \<Rightarrow> Inr resolved) of
                  Inl e \<Rightarrow> Inl e
                | Inr requiredMessage \<Rightarrow>
                    if truthy requiredMessage
                    then (case preconditionsMet configNode data ctx (TStr path) of
                            Inl e \<Rightarrow> Inl e
                          | Inr met \<Rightarrow>
                              Inr (if truthy met \<and> dataNodeIsBlank path data
                                   then Some (path, requiredMessage) else None))
                    else Inr None)))
   \<and> validateRequired (JObj [(''required'', JStr ''$value'')]) data no_capabilities path
       = Inr (if dataNodeIsBlank path data then Some (path, JStr ''$value'') else None)
   \<and> resolveRequiredMessage requiredNode data ctx path = resolveRequiredMessage requiredNode data ctx path'
   \<and> resolve (JStr ''$.items.^.name'') data no_capabilities this_path = Inr (get_str data ''items..name'')"
proof -
  have nc: "no_capabilities ''undefined'' = None" by (simp add: no_capabilities_def)
  have unfolded: "validateRequired configNode data ctx path =
     (case member configNode ''required'' of
        Inl e \<Rightarrow> Inl e
      | Inr required \<Rightarrow>
          (case resolve required data ctx TUndef of
             Inl e \<Rightarrow> Inl e
           | Inr resolved \<Rightarrow>
               (case (case resolved of
                        JArr rs \<Rightarrow> required_reduce required (JBool False) 0 rs
                      | _ \<Rightarrow> Inr resolved) of
                  Inl e \<Rightarrow> Inl e
                | Inr requiredMessage \<Rightarrow>
                    if truthy requiredMessage
                    then (case preconditionsMet configNode data ctx (TStr path) of
                            Inl e \<Rightarrow> Inl e
                          | Inr met \<Rightarrow>
                              Inr (if truthy met \<and> dataNodeIsBlank path data
                                   then Some (path, requiredMessage) else None))
                    else Inr None)))"
    by (simp add: validateRequired_def resolveRequiredMessage_def this_path_def
        split: sum.splits)
  have sentinel: "validateRequired (JObj [(''required'', JStr ''$value'')]) data no_capabilities path
       = Inr (if dataNodeIsBlank path data then Some (path, JStr ''$value'') else None)"
    by (simp add: validateRequired_def resolveRequiredMessage_def this_path_def member_def
        nullish_def resolve_string_plain [of no_capabilities, OF nc] resolveString_def
        tpath_truthy_def preconditionsMet_def)
  have same: "resolveRequiredMessage requiredNode data ctx path
           = resolveRequiredMessage requiredNode data ctx path'"
    by (simp add: resolveRequiredMessage_def)
  have caret: "resolve (JStr ''$.items.^.name'') data no_capabilities this_path
       = Inr (get_str data ''items..name'')"
    by (simp add: this_path_def resolve_string_plain [of no_capabilities, OF nc]
        resolveString_def tpath_truthy_def applyRelativeIndexes_def tpath_token_def)
  from unfolded sentinel same caret show ?thesis by simp
qed

text \<open>The definitions unfolded to evaluate the validator on a concrete section.\<close>

lemmas eval_defs = section_messages_def member_def nullish_def required_check_def
  isArrayPath_def applyRequiredValidationIfMissing_def validateRequired_def
  resolveRequiredMessage_def this_path_def resolve.simps resolveString_def tpath_truthy_def
  preconditionsMet_def dataNodeIsBlank_def get_str_def castPath_def has_key_def get_path_def
  isBlank_def isLeaf_def applyCustomValidationIfFails_def validateCustom_def
  getRefPathForDataPath_def strip_trailing_star_def isNaN_str_def trim_def is_ws_def
  is_decimal_def is_digit_def validation_items_def call_args_def has_message_def
  index_of_string_def is_index_def never_ctx_def Let_def

lemma first_failing_path:
  "first_failing data ctx path vs = Inr (Some m) \<Longrightarrow> fst m = join_with ''.'' path"
  by (induction vs) (auto split: sum.splits if_splits)

lemma validateCustom_path:
  "validateCustom configNode data ctx path = Inr (Some m) \<Longrightarrow> fst m = join_with ''.'' path"
  by (auto simp: validateCustom_def Let_def dest: first_failing_path split: sum.splits if_splits)

lemma has_message_append:
  "has_message (xs @ ys) s = (has_message xs s \<or> has_message ys s)"
  by (simp add: has_message_def)

lemma has_message_iff: "has_message xs s = (s \<in> fst ` set xs)"
  by (auto simp: has_message_def list_ex_iff)

lemma applyCustom_cases:
  assumes "applyCustomValidationIfFails configNode data ctx path msgs = Inr msgs'"
  shows "msgs' = msgs \<or> (\<exists>m. msgs' = msgs @ [m] \<and> \<not> has_message msgs (fst m))"
  using assms validateCustom_path [of configNode data ctx path]
  by (auto simp: applyCustomValidationIfFails_def split: sum.splits option.splits if_splits)

lemma custom_pass_appends:
  assumes "custom_pass cfg data ctx sid msgs visited = Inr out"
  shows "\<exists>cs. out = msgs @ cs \<and> (\<forall>c\<in>set cs. \<not> has_message msgs (fst c)) \<and> distinct (map fst cs)"
  using assms
proof (induction visited arbitrary: msgs)
  case Nil
  then show ?case by simp
next
  case (Cons v visited)
  obtain p dataNode where v: "v = (p, dataNode)" by (cases v)
  show ?case
  proof (cases "isLeaf dataNode")
    case False
    with Cons v show ?thesis by simp
  next
    case True
    with Cons.prems v obtain msgs' where
      one: "applyCustomValidationIfFails
              (getConfigNodeByPath cfg (getRefPathForDataPath (sid # p))) data ctx (sid # p) msgs
            = Inr msgs'"
      and rest: "custom_pass cfg data ctx sid msgs' visited = Inr out"
      by (auto simp: Let_def split: sum.splits)
    from Cons.IH [OF rest] obtain cs where
      cs: "out = msgs' @ cs" "\<forall>c\<in>set cs. \<not> has_message msgs' (fst c)" "distinct (map fst cs)"
      by blast
    from applyCustom_cases [OF one] show ?thesis
    proof
      assume "msgs' = msgs"
      with cs show ?thesis by blast
    next
      assume "\<exists>m. msgs' = msgs @ [m] \<and> \<not> has_message msgs (fst m)"
      then obtain m where m: "msgs' = msgs @ [m]" "\<not> has_message msgs (fst m)" by blast
      have "out = msgs @ (m # cs)" using cs(1) m(1) by simp
      moreover have "\<forall>c\<in>set (m # cs). \<not> has_message msgs (fst c)"
        using cs(2) m by (auto simp: has_message_append)
      moreover have "distinct (map fst (m # cs))"
        using cs(2,3) m(1) by (auto simp: has_message_iff)
      ultimately show ?thesis by blast
    qed
  qed
qed

text \<open>
  C7 (as amended). The messages of a section are those of the required pass followed
  by custom messages, none of which has the path of a required message and no two of
  which have the same path; so for a path with a required message only required
  messages appear. A failing custom validation is dropped exactly when a message with
  the same path string is already in the list, whichever pass recorded it.
\<close>

theorem recorded_path_suppresses_custom:
  assumes "section_messages data cfg ctx node = Inr (sid, out)"
  shows "\<exists>req cs.
           required_pass (if data = JUndef then JObj [] else data) ctx [] (map snd (walk [] node)) = Inr req
         \<and> out = req @ cs
         \<and> (\<forall>c\<in>set cs. \<not> has_message req (fst c))
         \<and> distinct (map fst cs)
         \<and> (\<forall>s. has_message req s \<longrightarrow> filter (\<lambda>m. fst m = s) out = filter (\<lambda>m. fst m = s) req)
         \<and> (\<forall>configNode path msgs m.
               validateCustom configNode data ctx path = Inr (Some m) \<longrightarrow>
               applyCustomValidationIfFails configNode data ctx path msgs =
                 Inr (if has_message msgs (join_with ''.'' path) then msgs else msgs @ [m]))"
proof -
  let ?data = "if data = JUndef then JObj [] else data"
  from assms obtain req sectionData where
    req: "required_pass ?data ctx [] (map snd (walk [] node)) = Inr req"
    and cust: "custom_pass cfg ?data ctx sid req (walk [] sectionData) = Inr out"
    by (auto simp: section_messages_def Let_def split: sum.splits)
  from custom_pass_appends [OF cust] obtain cs where
    cs: "out = req @ cs" "\<forall>c\<in>set cs. \<not> has_message req (fst c)" "distinct (map fst cs)"
    by blast
  have only: "\<forall>s. has_message req s \<longrightarrow> filter (\<lambda>m. fst m = s) out = filter (\<lambda>m. fst m = s) req"
  proof (intro allI impI)
    fix s assume "has_message req s"
    with cs(2) have "filter (\<lambda>m. fst m = s) cs = []"
      by (auto simp: filter_empty_conv)
    with cs(1) show "filter (\<lambda>m. fst m = s) out = filter (\<lambda>m. fst m = s) req" by simp
  qed
  have each: "\<forall>configNode path msgs m.
               validateCustom configNode data ctx path = Inr (Some m) \<longrightarrow>
               applyCustomValidationIfFails configNode data ctx path msgs =
                 Inr (if has_message msgs (join_with ''.'' path) then msgs else msgs @ [m])"
    by (simp add: applyCustomValidationIfFails_def)
  from req cs only each show ?thesis by blast
qed

theorem recorded_path_suppresses_custom_witness:
  "section_messages tags_data tags_cfg never_ctx tags_section
     = Inr (''s'', [(''s.tags'', JStr ''Tags are required'')])
   \<and> required_pass tags_data never_ctx [] (map snd (walk [] tags_section))
     = Inr [(''s.tags'', JStr ''Tags are required'')]
   \<and> validateCustom tags_field tags_data never_ctx [''s'', ''tags'']
     = Inr (Some (''s.tags'', JStr ''Bad tags''))
   \<and> applyCustomValidationIfFails tags_field tags_data never_ctx [''s'', ''tags'']
       [(''s.tags'', JStr ''Tags are required'')]
     = Inr [(''s.tags'', JStr ''Tags are required'')]"
proof -
  have run: "section_messages tags_data tags_cfg never_ctx tags_section
     = Inr (''s'', [(''s.tags'', JStr ''Tags are required'')])"
    by (simp add: tags_data_def tags_cfg_def tags_section_def tags_field_def eval_defs)
  have custom: "validateCustom tags_field tags_data never_ctx [''s'', ''tags'']
     = Inr (Some (''s.tags'', JStr ''Bad tags''))"
    by (simp add: tags_data_def tags_field_def eval_defs)
  from recorded_path_suppresses_custom [OF run] obtain req cs where
    req: "required_pass (if tags_data = JUndef then JObj [] else tags_data) never_ctx []
            (map snd (walk [] tags_section)) = Inr req"
    and out: "[(''s.tags'', JStr ''Tags are required'')] = req @ cs"
    and fresh: "\<forall>c\<in>set cs. \<not> has_message req (fst c)"
    and each: "\<forall>configNode path msgs m.
               validateCustom configNode tags_data never_ctx path = Inr (Some m) \<longrightarrow>
               applyCustomValidationIfFails configNode tags_data never_ctx path msgs =
                 Inr (if has_message msgs (join_with ''.'' path) then msgs else msgs @ [m])"
    by blast
  have "required_pass tags_data never_ctx [] (map snd (walk [] tags_section))
     = Inr [(''s.tags'', JStr ''Tags are required'')]"
    by (simp add: tags_data_def tags_section_def tags_field_def eval_defs)
  moreover from each custom
  have "applyCustomValidationIfFails tags_field tags_data never_ctx [''s'', ''tags'']
       [(''s.tags'', JStr ''Tags are required'')]
     = Inr [(''s.tags'', JStr ''Tags are required'')]"
    by (simp add: has_message_def)
  ultimately show ?thesis using run custom by simp
qed

text \<open>
  With the keys \<open>a.b\<close> and \<open>a\<close>, \<open>b\<close> two leaves have the path string \<open>s.a.b\<close>. Both
  fail the custom validation and the required pass records nothing, yet only the first
  failure is recorded: the second is suppressed by a custom message.
\<close>

theorem custom_suppressed_without_required_counterexample:
  "required_pass dotted_data never_ctx [] (map snd (walk [] dotted_section)) = Inr []
   \<and> validateCustom dotted_rule dotted_data never_ctx [''s'', ''a.b'']
       = Inr (Some (''s.a.b'', JStr ''Bad value''))
   \<and> validateCustom dotted_rule dotted_data never_ctx [''s'', ''a'', ''b'']
       = Inr (Some (''s.a.b'', JStr ''Bad value''))
   \<and> section_messages dotted_data dotted_cfg never_ctx dotted_section
       = Inr (''s'', [(''s.a.b'', JStr ''Bad value'')])"
  by (simp add: dotted_data_def dotted_cfg_def dotted_section_def dotted_rule_def eval_defs)

section \<open>Properties of clearing\<close>

subsection \<open>Array indexes as property names\<close>

lemma digit_char_cases:
  "d < 10 \<Longrightarrow> d = 0 \<or> d = 1 \<or> d = 2 \<or> d = 3 \<or> d = 4 \<or> d = 5 \<or> d = 6 \<or> d = 7 \<or> d = 8 \<or> d = (9::nat)"
  by arith

lemma digit_char_digit: "d < 10 \<Longrightarrow> is_digit (digit_char d)"
  using digit_char_cases [of d] by (auto simp: is_digit_def digit_char_def)

lemma digit_char_value:
  "d < 10 \<Longrightarrow> (of_char (digit_char d) :: nat) - of_char (CHR ''0'') = d"
  using digit_char_cases [of d] by (auto simp: digit_char_def)

lemma digit_char_zero: "d < 10 \<Longrightarrow> digit_char d = CHR ''0'' \<Longrightarrow> d = 0"
  using digit_char_cases [of d] by (auto simp: digit_char_def)

lemma string_of_nat_digits: "list_all is_digit (string_of_nat n) \<and> string_of_nat n \<noteq> []"
proof (induction n rule: string_of_nat.induct)
  case (1 n)
  show ?case
  proof (cases "n < 10")
    case True
    then show ?thesis by (subst string_of_nat.simps, subst string_of_nat.simps) (simp add: digit_char_digit)
  next
    case False
    with 1 show ?thesis
      by (subst string_of_nat.simps, subst (2) string_of_nat.simps) (simp add: digit_char_digit)
  qed
qed

lemma nat_of_digits_snoc:
  "nat_of_digits (s @ [c]) = 10 * nat_of_digits s + (of_char c - of_char (CHR ''0''))"
  by (simp add: nat_of_digits_def)

lemma nat_of_string_of_nat: "nat_of_digits (string_of_nat n) = n"
proof (induction n rule: string_of_nat.induct)
  case (1 n)
  show ?case
  proof (cases "n < 10")
    case True
    then show ?thesis
      using digit_char_value [of n] by (subst string_of_nat.simps) (simp add: nat_of_digits_def)
  next
    case False
    with 1 have "nat_of_digits (string_of_nat (n div 10)) = n div 10" by simp
    with False show ?thesis
      using digit_char_value [of "n mod 10"]
      by (subst string_of_nat.simps) (simp add: nat_of_digits_snoc)
  qed
qed

lemma string_of_nat_hd: "0 < n \<Longrightarrow> hd (string_of_nat n) \<noteq> CHR ''0''"
proof (induction n rule: string_of_nat.induct)
  case (1 n)
  show ?case
  proof (cases "n < 10")
    case True
    with 1(2) show ?thesis
      using digit_char_zero [of n] by (subst string_of_nat.simps) auto
  next
    case False
    then have "0 < n div 10" by simp
    with 1 False have "hd (string_of_nat (n div 10)) \<noteq> CHR ''0''" by simp
    with False show ?thesis
      using string_of_nat_digits [of "n div 10"]
      by (subst string_of_nat.simps) simp
  qed
qed

lemma index_of_string_of_nat: "index_of_string (string_of_nat n) = Some n"
proof -
  have idx: "is_index (string_of_nat n)"
    using string_of_nat_digits [of n] by (simp add: is_index_def)
  have canon: "length (string_of_nat n) = 1 \<or> hd (string_of_nat n) \<noteq> CHR ''0''"
  proof (cases "n = 0")
    case True
    then show ?thesis by (simp add: string_of_nat.simps)
  next
    case False
    then show ?thesis using string_of_nat_hd [of n] by simp
  qed
  from idx canon show ?thesis
    by (auto simp: index_of_string_def nat_of_string_of_nat)
qed

lemma string_of_nat_inj: "string_of_nat a = string_of_nat b \<Longrightarrow> a = b"
  by (metis nat_of_string_of_nat)

lemma string_of_nat_not_length: "string_of_nat n \<noteq> ''length''"
proof
  assume "string_of_nat n = ''length''"
  with string_of_nat_digits [of n] show False by (simp add: is_digit_def)
qed

subsection \<open>The traversal by children\<close>

lemma walk_arr_shift:
  assumes "\<And>x pre. x \<in> set xs \<Longrightarrow> walk pre x = map (\<lambda>(q, y). (pre @ q, y)) (walk [] x)"
  shows "walk_arr pre i xs =
           concat (map (\<lambda>(k, x). map (\<lambda>(q, y). (pre @ k # q, y)) (walk [] x)) (index_from i xs))"
  using assms
proof (induction xs arbitrary: i)
  case Nil
  show ?case by simp
next
  case (Cons x xs)
  have "walk (pre @ [string_of_nat i]) x
          = map (\<lambda>(q, y). ((pre @ [string_of_nat i]) @ q, y)) (walk [] x)"
    by (rule Cons.prems) simp
  moreover have "walk_arr pre (Suc i) xs =
           concat (map (\<lambda>(k, x). map (\<lambda>(q, y). (pre @ k # q, y)) (walk [] x)) (index_from (Suc i) xs))"
    by (rule Cons.IH) (rule Cons.prems, simp)
  ultimately show ?case by simp
qed

lemma walk_obj_shift:
  assumes "\<And>k x pre. (k, x) \<in> set kvs \<Longrightarrow> walk pre x = map (\<lambda>(q, y). (pre @ q, y)) (walk [] x)"
  shows "walk_obj pre kvs =
           concat (map (\<lambda>(k, x). map (\<lambda>(q, y). (pre @ k # q, y)) (walk [] x)) kvs)"
  using assms
proof (induction kvs)
  case Nil
  show ?case by simp
next
  case (Cons kv kvs)
  obtain k x where kv: "kv = (k, x)" by (cases kv)
  have "walk (pre @ [k]) x = map (\<lambda>(q, y). ((pre @ [k]) @ q, y)) (walk [] x)"
    by (rule Cons.prems [of k x]) (simp add: kv)
  moreover have "walk_obj pre kvs =
           concat (map (\<lambda>(k, x). map (\<lambda>(q, y). (pre @ k # q, y)) (walk [] x)) kvs)"
  proof (rule Cons.IH)
    fix k' x' pre' assume "(k', x') \<in> set kvs"
    then have "(k', x') \<in> set (kv # kvs)" by simp
    then show "walk pre' x' = map (\<lambda>(q, y). (pre' @ q, y)) (walk [] x')" by (rule Cons.prems)
  qed
  ultimately show ?case by (simp add: kv)
qed

lemma index_from_set: "(k, x) \<in> set (index_from i xs) \<Longrightarrow> x \<in> set xs"
  by (induction xs arbitrary: i) auto

lemma walk_shift: "walk pre v = map (\<lambda>(q, y). (pre @ q, y)) (walk [] v)"
proof (induction v arbitrary: pre)
  case (JArr xs)
  have a: "walk_arr pre 0 xs =
           concat (map (\<lambda>(k, x). map (\<lambda>(q, y). (pre @ k # q, y)) (walk [] x)) (index_from 0 xs))"
    by (rule walk_arr_shift) (rule JArr)
  have b: "walk_arr [] 0 xs =
           concat (map (\<lambda>(k, x). map (\<lambda>(q, y). ([] @ k # q, y)) (walk [] x)) (index_from 0 xs))"
    by (rule walk_arr_shift) (rule JArr)
  show ?case
    unfolding walk.simps a b
    by (simp add: map_concat comp_def split_def del: walk.simps)
next
  case (JObj kvs)
  have hyp: "\<And>k x pre. (k, x) \<in> set kvs \<Longrightarrow> walk pre x = map (\<lambda>(q, y). (pre @ q, y)) (walk [] x)"
  proof -
    fix k x pre assume kx: "(k, x) \<in> set kvs"
    have "x \<in> Basic_BNFs.snds (k, x)" by (simp add: snds.intros)
    with kx show "walk pre x = map (\<lambda>(q, y). (pre @ q, y)) (walk [] x)" by (rule JObj)
  qed
  have a: "walk_obj pre kvs =
           concat (map (\<lambda>(k, x). map (\<lambda>(q, y). (pre @ k # q, y)) (walk [] x)) kvs)"
    by (rule walk_obj_shift) (rule hyp)
  have b: "walk_obj [] kvs =
           concat (map (\<lambda>(k, x). map (\<lambda>(q, y). ([] @ k # q, y)) (walk [] x)) kvs)"
    by (rule walk_obj_shift) (rule hyp)
  show ?case
    unfolding walk.simps a b
    by (simp add: map_concat comp_def split_def del: walk.simps)
qed simp_all

lemma walk_children:
  "walk [] v = ([], v) # concat (map (\<lambda>(k, x). under k (walk [] x)) (children v))"
proof (cases v)
  case (JArr xs)
  have "walk_arr [] 0 xs =
           concat (map (\<lambda>(k, x). map (\<lambda>(q, y). ([] @ k # q, y)) (walk [] x)) (index_from 0 xs))"
    by (rule walk_arr_shift) (rule walk_shift)
  with JArr show ?thesis by (simp add: children_def under_def)
next
  case (JObj kvs)
  have "walk_obj [] kvs =
           concat (map (\<lambda>(k, x). map (\<lambda>(q, y). ([] @ k # q, y)) (walk [] x)) kvs)"
    by (rule walk_obj_shift) (rule walk_shift)
  with JObj show ?thesis by (simp add: children_def under_def)
qed (simp_all add: children_def)


lemma index_from_keys: "map fst (index_from i xs) = map string_of_nat [i ..< i + length xs]"
proof (induction xs arbitrary: i)
  case Nil
  show ?case by simp
next
  case (Cons x xs)
  have "[i ..< i + length (x # xs)] = i # [Suc i ..< Suc i + length xs]"
    by (simp add: upt_rec)
  with Cons [of "Suc i"] show ?case by simp
qed

lemma index_from_lookup:
  "map_of (index_from i xs) k = Some x \<Longrightarrow>
     \<exists>j. k = string_of_nat (i + j) \<and> j < length xs \<and> xs ! j = x"
proof (induction xs arbitrary: i)
  case Nil
  then show ?case by simp
next
  case (Cons y xs)
  show ?case
  proof (cases "k = string_of_nat i")
    case True
    with Cons.prems show ?thesis by (intro exI [of _ 0]) simp
  next
    case False
    with Cons.prems have "map_of (index_from (Suc i) xs) k = Some x" by simp
    from Cons.IH [OF this] obtain j where
      "k = string_of_nat (Suc i + j)" "j < length xs" "xs ! j = x" by blast
    then show ?thesis by (intro exI [of _ "Suc j"]) simp
  qed
qed

lemma index_from_update:
  "j < length xs \<Longrightarrow>
   index_from i (xs[j := x']) =
     map (\<lambda>(k', y). (k', if k' = string_of_nat (i + j) then x' else y)) (index_from i xs)"
proof (induction xs arbitrary: i j)
  case Nil
  then show ?case by simp
next
  case (Cons y xs)
  show ?case
  proof (cases j)
    case 0
    have "\<forall>(k', y) \<in> set (index_from (Suc i) xs). k' \<noteq> string_of_nat i"
    proof -
      have "string_of_nat i \<notin> set (map fst (index_from (Suc i) xs))"
        unfolding index_from_keys by (auto dest: string_of_nat_inj)
      then show ?thesis by force
    qed
    then have "map (\<lambda>(k', y). (k', if k' = string_of_nat i then x' else y)) (index_from (Suc i) xs)
               = index_from (Suc i) xs"
      by (intro map_idI) auto
    with 0 show ?thesis by simp
  next
    case (Suc j')
    with Cons.prems have "j' < length xs" by simp
    from Cons.IH [OF this, of "Suc i"] Suc show ?thesis
      by (auto dest: string_of_nat_inj)
  qed
qed

lemma children_distinct: "wf_jv v \<Longrightarrow> distinct (map fst (children v))"
proof (cases v)
  case (JArr xs)
  have "inj_on string_of_nat (set [0 ..< 0 + length xs])"
    by (auto simp: inj_on_def dest: string_of_nat_inj)
  then show ?thesis using JArr
    by (simp add: children_def index_from_keys distinct_map)
qed (simp_all add: children_def)

lemma wf_elems_iff: "wf_elems xs = (\<forall>x\<in>set xs. wf_jv x)"
  by (induction xs) auto

lemma wf_props_iff: "wf_props kvs = (\<forall>(k, x)\<in>set kvs. wf_jv x)"
  by (induction kvs) auto

lemma children_wf: "wf_jv v \<Longrightarrow> (k, x) \<in> set (children v) \<Longrightarrow> wf_jv x"
  by (cases v) (auto simp: children_def wf_elems_iff wf_props_iff dest: index_from_set)

lemma children_jprop:
  assumes "map_of (children v) k = Some x"
  shows "jprop v k = x" and "isObject v"
proof -
  show "jprop v k = x"
  proof (cases v)
    case (JArr xs)
    with assms obtain j where j: "k = string_of_nat (0 + j)" "j < length xs" "xs ! j = x"
      using index_from_lookup [of 0 xs k x] by (auto simp: children_def)
    with JArr show ?thesis
      by (simp add: index_of_string_of_nat string_of_nat_not_length)
  qed (use assms in \<open>simp_all add: children_def\<close>)
  show "isObject v" using assms by (cases v) (simp_all add: children_def isObject_def)
qed

lemma obj_update_map:
  "obj_update kvs k x' = map (\<lambda>(k', y). (k', if k' = k then x' else y)) kvs"
  if "distinct (map fst kvs)"
  using that
proof (induction kvs)
  case Nil
  show ?case by simp
next
  case (Cons kv kvs)
  obtain k0 y0 where kv: "kv = (k0, y0)" by (cases kv)
  show ?case
  proof (cases "k0 = k")
    case True
    with Cons.prems kv have "\<forall>(k', y) \<in> set kvs. k' \<noteq> k" by force
    then have "map (\<lambda>(k', y). (k', if k' = k then x' else y)) kvs = kvs"
      by (intro map_idI) auto
    with True kv show ?thesis by simp
  next
    case False
    with Cons kv show ?thesis by simp
  qed
qed

lemma children_assign:
  assumes "wf_jv v" and "map_of (children v) k = Some x"
  shows "children (assignValue v k x') =
           map (\<lambda>(k', y). (k', if k' = k then x' else y)) (children v)"
proof (cases v)
  case (JArr xs)
  with assms obtain j where j: "k = string_of_nat (0 + j)" "j < length xs" "xs ! j = x"
    using index_from_lookup [of 0 xs k x] by (auto simp: children_def)
  with JArr show ?thesis
    using index_from_update [of j xs 0 x']
    by (simp add: children_def assignValue_def index_of_string_of_nat)
next
  case (JObj kvs)
  with assms show ?thesis
    by (simp add: children_def assignValue_def obj_update_map)
qed (use assms in \<open>simp_all add: children_def\<close>)


subsection \<open>Clearing a path that exists\<close>

lemma traverse_children:
  "traverse_paths v = [] # concat (map (\<lambda>(k, x). map ((#) k) (traverse_paths x)) (children v))"
  unfolding traverse_paths_def
  by (subst walk_children) (simp add: under_def map_concat comp_def split_def)

lemma path_child:
  assumes "wf_jv v" and "k # p' \<in> set (traverse_paths v)"
  shows "\<exists>x. map_of (children v) k = Some x \<and> p' \<in> set (traverse_paths x)"
proof -
  from assms(2) obtain k0 x where kx: "(k0, x) \<in> set (children v)"
    and p: "k # p' \<in> (#) k0 ` set (traverse_paths x)"
    by (subst (asm) traverse_children) auto
  from p have "k0 = k" "p' \<in> set (traverse_paths x)" by auto
  moreover from kx children_distinct [OF assms(1)] have "map_of (children v) k0 = Some x"
    by simp
  ultimately show ?thesis by auto
qed

lemma path_isObject: "p \<noteq> [] \<Longrightarrow> p \<in> set (traverse_paths v) \<Longrightarrow> isObject v"
  by (subst (asm) traverse_children, cases v) (auto simp: children_def isObject_def)

lemma baseSet_child:
  assumes "wf_jv v" and "map_of (children v) k = Some x" and "p' \<in> set (traverse_paths x)"
  shows "baseSet v (k # p') u = assignValue v k (if p' = [] then u else baseSet x p' u)"
proof (cases p')
  case Nil
  then show ?thesis by simp
next
  case (Cons k' ks)
  with assms(3) have "isObject x" by (intro path_isObject [of p' x]) auto
  with Cons children_jprop(1) [OF assms(2)] show ?thesis by (simp add: Let_def)
qed

lemma traverse_assign:
  assumes "wf_jv v" and "map_of (children v) k = Some x"
  shows "traverse_paths (assignValue v k x') =
           [] # concat (map (\<lambda>(k', y). map ((#) k') (traverse_paths (if k' = k then x' else y)))
                          (children v))"
  by (subst traverse_children)
     (simp add: children_assign [OF assms] comp_def split_def)

lemma traverse_root_only:
  "filter (\<lambda>q. \<not> strict_prefix [] q) (traverse_paths v) = [[]]"
proof -
  have "filter (\<lambda>q. \<not> strict_prefix [] q)
          (concat (map (\<lambda>(k, x). map ((#) k) (traverse_paths x)) (children v))) = []"
    by (auto simp: filter_empty_conv)
  then show ?thesis by (subst traverse_children) simp
qed

lemma clear_paths:
  assumes "wf_jv v" and "p \<noteq> []" and "p \<in> set (traverse_paths v)"
  shows "traverse_paths (baseSet v p JUndef) =
           filter (\<lambda>q. \<not> strict_prefix p q) (traverse_paths v)"
  using assms
proof (induction p arbitrary: v)
  case Nil
  then show ?case by simp
next
  case (Cons k p')
  from path_child [OF Cons.prems(1,3)] obtain x where
    x: "map_of (children v) k = Some x" and p': "p' \<in> set (traverse_paths x)" by blast
  let ?x' = "if p' = [] then JUndef else baseSet x p' JUndef"
  have wfx: "wf_jv x" using children_wf [OF Cons.prems(1)] x by (auto dest: map_of_SomeD)
  have child: "traverse_paths ?x' = filter (\<lambda>q. \<not> strict_prefix p' q) (traverse_paths x)"
  proof (cases "p' = []")
    case True
    then show ?thesis by (simp add: traverse_root_only) (simp add: traverse_paths_def)
  next
    case False
    with Cons.IH [OF wfx False p'] show ?thesis by simp
  qed
  have lhs: "traverse_paths (baseSet v (k # p') JUndef) =
      [] # concat (map (\<lambda>(k', y). map ((#) k') (traverse_paths (if k' = k then ?x' else y)))
                     (children v))"
    unfolding baseSet_child [OF Cons.prems(1) x p']
    by (rule traverse_assign [OF Cons.prems(1) x])
  have rhs: "filter (\<lambda>q. \<not> strict_prefix (k # p') q) (traverse_paths v) =
      [] # concat (map (\<lambda>(k', y). filter (\<lambda>q. \<not> strict_prefix (k # p') q)
                                       (map ((#) k') (traverse_paths y))) (children v))"
    by (subst traverse_children) (simp add: filter_concat comp_def split_def)
  have each: "map ((#) k') (traverse_paths (if k' = k then ?x' else y)) =
              filter (\<lambda>q. \<not> strict_prefix (k # p') q) (map ((#) k') (traverse_paths y))"
    if "(k', y) \<in> set (children v)" for k' y
  proof (cases "k' = k")
    case True
    with that x children_distinct [OF Cons.prems(1)] have "y = x" by simp
    with True child show ?thesis by (simp add: filter_map comp_def)
  next
    case False
    then show ?thesis by (simp add: filter_map comp_def)
  qed
  have "map (\<lambda>(k', y). map ((#) k') (traverse_paths (if k' = k then ?x' else y))) (children v)
      = map (\<lambda>(k', y). filter (\<lambda>q. \<not> strict_prefix (k # p') q)
                          (map ((#) k') (traverse_paths y))) (children v)"
  proof (rule map_cong [OF refl])
    fix kv assume kv: "kv \<in> set (children v)"
    obtain k' y where ky: "kv = (k', y)" by (cases kv)
    from each [of k' y] kv ky
    show "(case kv of (k', y) \<Rightarrow> map ((#) k') (traverse_paths (if k' = k then ?x' else y)))
        = (case kv of (k', y) \<Rightarrow> filter (\<lambda>q. \<not> strict_prefix (k # p') q)
                          (map ((#) k') (traverse_paths y)))"
      by (simp only: prod.case)
  qed
  with lhs rhs show ?case by simp
qed


lemma under_mem: "(q, y) \<in> set (under k w) \<longleftrightarrow> (\<exists>q'. q = k # q' \<and> (q', y) \<in> set w)"
  by (force simp: under_def)

lemma walk_mem:
  "(q, y) \<in> set (walk [] v) \<longleftrightarrow>
     (q = [] \<and> y = v) \<or>
     (\<exists>k x q'. (k, x) \<in> set (children v) \<and> q = k # q' \<and> (q', y) \<in> set (walk [] x))"
proof -
  have "set (walk [] v) = insert ([], v) (\<Union>(k, x)\<in>set (children v). set (under k (walk [] x)))"
    by (subst walk_children) (simp add: split_def)
  then show ?thesis by (simp add: under_mem split_def) force
qed

lemma children_assign_mem:
  assumes "wf_jv v" and "map_of (children v) k = Some x"
  shows "(k', y) \<in> set (children (assignValue v k x')) \<longleftrightarrow>
           (\<exists>y0. (k', y0) \<in> set (children v) \<and> y = (if k' = k then x' else y0))"
  unfolding children_assign [OF assms] by force

lemma clear_slot:
  assumes "wf_jv v" and "p \<noteq> []" and "p \<in> set (traverse_paths v)"
  shows "(p, JUndef) \<in> set (walk [] (baseSet v p JUndef))"
  using assms
proof (induction p arbitrary: v)
  case Nil
  then show ?case by simp
next
  case (Cons k p')
  from path_child [OF Cons.prems(1,3)] obtain x where
    x: "map_of (children v) k = Some x" and p': "p' \<in> set (traverse_paths x)" by blast
  let ?x' = "if p' = [] then JUndef else baseSet x p' JUndef"
  have wfx: "wf_jv x" using children_wf [OF Cons.prems(1)] x by (auto dest: map_of_SomeD)
  have inner: "(p', JUndef) \<in> set (walk [] ?x')"
  proof (cases "p' = []")
    case True
    then show ?thesis by simp
  next
    case False
    with Cons.IH [OF wfx False p'] show ?thesis by simp
  qed
  have "(k, x) \<in> set (children v)" using x by (rule map_of_SomeD)
  then have "(k, ?x') \<in> set (children (assignValue v k ?x'))"
    unfolding children_assign_mem [OF Cons.prems(1) x] by auto
  with inner have "(k # p', JUndef) \<in> set (walk [] (assignValue v k ?x'))"
    by (subst walk_mem) blast
  then show ?case unfolding baseSet_child [OF Cons.prems(1) x p'] .
qed

lemma clear_siblings:
  assumes "wf_jv v" and "p \<noteq> []" and "p \<in> set (traverse_paths v)"
    and "(q, y) \<in> set (walk [] v)" and "\<not> prefix q p" and "\<not> prefix p q"
  shows "(q, y) \<in> set (walk [] (baseSet v p JUndef))"
  using assms
proof (induction p arbitrary: v q)
  case Nil
  then show ?case by simp
next
  case (Cons k p')
  from path_child [OF Cons.prems(1,3)] obtain x where
    x: "map_of (children v) k = Some x" and p': "p' \<in> set (traverse_paths x)" by blast
  let ?x' = "if p' = [] then JUndef else baseSet x p' JUndef"
  have wfx: "wf_jv x" using children_wf [OF Cons.prems(1)] x by (auto dest: map_of_SomeD)
  from Cons.prems(5) have "q \<noteq> []" by auto
  with Cons.prems(4) obtain k0 x0 q' where
    c: "(k0, x0) \<in> set (children v)" and q: "q = k0 # q'" and in0: "(q', y) \<in> set (walk [] x0)"
    by (subst (asm) walk_mem) auto
  have "\<exists>y0. (k0, y0) \<in> set (children (assignValue v k ?x')) \<and> (q', y) \<in> set (walk [] y0)"
  proof (cases "k0 = k")
    case False
    with c in0 show ?thesis
      unfolding children_assign_mem [OF Cons.prems(1) x] by auto
  next
    case True
    with c x children_distinct [OF Cons.prems(1)] have same: "x0 = x" by simp
    from True q Cons.prems(5,6) have np: "\<not> prefix q' p'" "\<not> prefix p' q'" by auto
    then have ne: "p' \<noteq> []" by auto
    from Cons.IH [OF wfx ne p' _ np] in0 same
    have "(q', y) \<in> set (walk [] (baseSet x p' JUndef))" by simp
    with ne True c show ?thesis
      unfolding children_assign_mem [OF Cons.prems(1) x] by auto
  qed
  with q have "(q, y) \<in> set (walk [] (assignValue v k ?x'))"
    by (subst walk_mem) blast
  then show ?case unfolding baseSet_child [OF Cons.prems(1) x p'] .
qed


text \<open>
  Clearing a path that exists in a well-formed tree leaves the list of traversed paths
  as it was, in the same order, except that the paths below the cleared one are gone:
  every key of every object and every array position is still there. The cleared slot
  holds \<open>undefined\<close>, and every node that is neither above nor below the cleared path
  keeps its value.
\<close>

lemma clear_keeps_structure:
  assumes "wf_jv r" and "p \<noteq> []" and "p \<in> set (traverse_paths r)"
  shows "traverse_paths (set_path r p JUndef) = filter (\<lambda>q. \<not> strict_prefix p q) (traverse_paths r)
       \<and> (p, JUndef) \<in> set (walk [] (set_path r p JUndef))
       \<and> (\<forall>q y. (q, y) \<in> set (walk [] r) \<and> \<not> prefix q p \<and> \<not> prefix p q
                 \<longrightarrow> (q, y) \<in> set (walk [] (set_path r p JUndef)))"
proof -
  have "isObject r" using assms(2,3) by (rule path_isObject)
  then have "set_path r p JUndef = baseSet r p JUndef" by (simp add: set_path_def)
  then show ?thesis
    using clear_paths [OF assms] clear_slot [OF assms] clear_siblings [OF assms] by auto
qed

lemma clear_keeps_structure_example:
  "wf_jv sample_tree \<and> [''xs'', ''1''] \<in> set (traverse_paths sample_tree)
   \<and> traverse_paths (set_path sample_tree [''xs'', ''1''] JUndef) = traverse_paths sample_tree
   \<and> ([''xs'', ''1''], JUndef) \<in> set (walk [] (set_path sample_tree [''xs'', ''1''] JUndef))
   \<and> ([''xs'', ''2''], JNum 3) \<in> set (walk [] (set_path sample_tree [''xs'', ''1''] JUndef))
   \<and> ([''a'', ''c''], JNum 2) \<in> set (walk [] (set_path sample_tree [''xs'', ''1''] JUndef))"
proof -
  have wf: "wf_jv sample_tree" by (simp add: sample_tree_def)
  have ne: "[''xs'', ''1''] \<noteq> []" by simp
  have paths: "traverse_paths sample_tree =
      [[], [''a''], [''a'', ''b''], [''a'', ''c''], [''xs''], [''xs'', ''0''], [''xs'', ''1''], [''xs'', ''2'']]"
    by (simp add: sample_tree_def traverse_paths_def string_of_nat.simps digit_char_def)
  have ex: "[''xs'', ''1''] \<in> set (traverse_paths sample_tree)" by (simp add: paths)
  have nodes: "([''xs'', ''2''], JNum 3) \<in> set (walk [] sample_tree)"
      "([''a'', ''c''], JNum 2) \<in> set (walk [] sample_tree)"
    by (simp_all add: sample_tree_def string_of_nat.simps digit_char_def)
  from clear_keeps_structure [OF wf ne ex] have
    a: "traverse_paths (set_path sample_tree [''xs'', ''1''] JUndef)
          = filter (\<lambda>q. \<not> strict_prefix [''xs'', ''1''] q) (traverse_paths sample_tree)"
    and b: "([''xs'', ''1''], JUndef) \<in> set (walk [] (set_path sample_tree [''xs'', ''1''] JUndef))"
    and c: "\<forall>q y. (q, y) \<in> set (walk [] sample_tree) \<and> \<not> prefix q [''xs'', ''1'']
                 \<and> \<not> prefix [''xs'', ''1''] q
                 \<longrightarrow> (q, y) \<in> set (walk [] (set_path sample_tree [''xs'', ''1''] JUndef))"
    by blast+
  have a': "traverse_paths (set_path sample_tree [''xs'', ''1''] JUndef) = traverse_paths sample_tree"
    unfolding a by (simp add: paths)
  from c nodes have
    "([''xs'', ''2''], JNum 3) \<in> set (walk [] (set_path sample_tree [''xs'', ''1''] JUndef))"
    "([''a'', ''c''], JNum 2) \<in> set (walk [] (set_path sample_tree [''xs'', ''1''] JUndef))"
    by auto
  with wf ex a' b show ?thesis by simp
qed

text \<open>
  C10. With the data \<open>{flag: false, a: {b: 1, c: 2}}\<close>, where the preconditions of
  \<open>$.a\<close> and of \<open>$.a.b\<close> both fail, the pruner clears \<open>a\<close> and then \<open>a.b\<close>. The second
  write finds \<open>undefined\<close> at \<open>a\<close> and puts a new object there: in the pruned output
  the cleared slot \<open>a\<close> holds \<open>{b: undefined}\<close> instead of an absent value, and the key
  \<open>c\<close> of the object that enclosed \<open>b\<close> is gone.
\<close>

theorem pruneData_restores_cleared_ancestor:
  "pruning_decisions nested_cfg nested_data never_ctx nested_order = Inr [[''a''], [''a'', ''b'']]
   \<and> pruneData nested_data nested_cfg nested_order never_ctx
       = Inr (JObj [(''flag'', JBool False), (''a'', JObj [(''b'', JUndef)])])
   \<and> get_path (JObj [(''flag'', JBool False), (''a'', JObj [(''b'', JUndef)])]) [''a''] \<noteq> JUndef
   \<and> get_path nested_data [''a'', ''c''] = JNum 2
   \<and> [''a'', ''c''] \<notin> set (traverse_paths (JObj [(''flag'', JBool False), (''a'', JObj [(''b'', JUndef)])]))"
  by (simp add: nested_cfg_def nested_data_def nested_order_def never_ctx_def pruneData_def
      cloneDeep_def getDataPathsForRefPath_def traverse_paths_def matches_def enumerate_eq_zip
      preconditionsMet_def member_def nullish_def resolve.simps resolveString_def tpath_truthy_def
      get_str_def castPath_def has_key_def get_path_def call_args_def set_path_def isObject_def
      assignValue_def index_of_string_def is_index_def is_digit_def Let_def)

section \<open>Properties of the pruner on the heap\<close>

lemma closed_above_iff:
  "closed_above n h \<longleftrightarrow>
     (\<forall>a. n \<le> a \<and> a < length h \<longrightarrow> (\<forall>v\<in>set (cell_vals (h ! a)). points_above n h v))"
proof -
  have "set (drop n h) = {h ! a |a. n \<le> a \<and> a < length h}"
  proof (intro set_eqI iffI)
    fix c assume "c \<in> set (drop n h)"
    then obtain i where i: "i < length (drop n h)" "c = drop n h ! i"
      by (auto simp: in_set_conv_nth)
    then have "c = h ! (n + i)" "n \<le> n + i" "n + i < length h" by auto
    then show "c \<in> {h ! a |a. n \<le> a \<and> a < length h}" by blast
  next
    fix c assume "c \<in> {h ! a |a. n \<le> a \<and> a < length h}"
    then obtain a where a: "c = h ! a" "n \<le> a" "a < length h" by blast
    then have "a - n < length (drop n h)" "drop n h ! (a - n) = c" by auto
    then show "c \<in> set (drop n h)" by (metis nth_mem)
  qed
  then show ?thesis by (auto simp: closed_above_def list_all_iff)
qed

lemma points_above_mono:
  "points_above n h v \<Longrightarrow> length h \<le> length h' \<Longrightarrow> points_above n h' v"
  by (auto simp: points_above_def split: hval.splits)

lemma obj_insert_vals: "set (map snd (obj_insert ps k v)) = insert v (set (map snd ps))"
  by (induction ps k v rule: obj_insert.induct) (auto split: option.splits)

lemma obj_update_vals: "set (map snd (obj_update ps k v)) \<subseteq> insert v (set (map snd ps))"
  by (induction ps k v rule: obj_update.induct) auto

lemma cell_assign_vals:
  "set (cell_vals (cell_assign c k v)) \<subseteq> insert v (insert HUndef (set (cell_vals c)))"
proof (cases c)
  case (HArr vs)
  then show ?thesis
    using set_update_subset_insert [of vs _ v]
    by (auto simp: cell_assign_def cell_vals_def split: option.splits)
next
  case (HObj ps)
  then show ?thesis
    using obj_update_vals [of ps k v]
    by (auto simp: cell_assign_def cell_vals_def obj_insert_vals simp del: set_map)
qed

lemma cell_prop_vals:
  "cell_prop c k \<in> set (cell_vals c) \<or> (\<forall>b. cell_prop c k \<noteq> HRef b)"
proof (cases c)
  case (HArr vs)
  then show ?thesis by (auto simp: cell_prop_def cell_vals_def split: option.splits)
next
  case (HObj ps)
  show ?thesis
  proof (cases "map_of ps k")
    case None
    with HObj show ?thesis by (simp add: cell_prop_def)
  next
    case (Some v)
    then have "(k, v) \<in> set ps" by (rule map_of_SomeD)
    then have "v \<in> snd ` set ps" by force
    with HObj Some show ?thesis by (simp add: cell_prop_def cell_vals_def)
  qed
qed

lemma h_assignValue_frame:
  assumes "closed_above n h" and "n \<le> a" and "points_above n h v"
  shows "closed_above n (h_assignValue h a k v)"
    and "take n (h_assignValue h a k v) = take n h"
    and "length (h_assignValue h a k v) = length h"
proof -
  show len: "length (h_assignValue h a k v) = length h" by (simp add: h_assignValue_def)
  show "take n (h_assignValue h a k v) = take n h"
    using assms(2) by (simp add: h_assignValue_def)
  show "closed_above n (h_assignValue h a k v)"
    unfolding closed_above_iff
  proof (intro allI impI ballI)
    fix a' w
    assume a': "n \<le> a' \<and> a' < length (h_assignValue h a k v)"
      and w: "w \<in> set (cell_vals (h_assignValue h a k v ! a'))"
    have "points_above n h w"
    proof (cases "a' = a")
      case True
      with a' w have "w \<in> set (cell_vals (cell_assign (h ! a) k v))"
        by (simp add: h_assignValue_def)
      with cell_assign_vals [of "h ! a" k v]
      have "w = v \<or> w = HUndef \<or> w \<in> set (cell_vals (h ! a))" by auto
      with assms(1,3) a' True show ?thesis
        by (auto simp: closed_above_iff h_assignValue_def points_above_def)
    next
      case False
      with a' w assms(1) show ?thesis
        by (auto simp: closed_above_iff h_assignValue_def)
    qed
    then show "points_above n (h_assignValue h a k v) w"
      by (rule points_above_mono) (simp add: len)
  qed
qed

lemma closed_above_snoc:
  assumes "closed_above n h" and "list_all (points_above n (h @ [c])) (cell_vals c)"
  shows "closed_above n (h @ [c])"
  unfolding closed_above_iff
proof (intro allI impI ballI)
  fix a w
  assume a: "n \<le> a \<and> a < length (h @ [c])" and w: "w \<in> set (cell_vals ((h @ [c]) ! a))"
  show "points_above n (h @ [c]) w"
  proof (cases "a < length h")
    case True
    with a w assms(1) have "points_above n h w"
      by (auto simp: closed_above_iff nth_append)
    then show ?thesis by (rule points_above_mono) simp
  next
    case False
    with a have "a = length h" by simp
    with w assms(2) show ?thesis by (auto simp: list_all_iff)
  qed
qed


lemma h_baseSet_frame:
  assumes "closed_above n h" and "n \<le> a" and "a < length h" and "points_above n h v"
  shows "closed_above n (h_baseSet h a p v) \<and> take n (h_baseSet h a p v) = take n h
         \<and> length h \<le> length (h_baseSet h a p v)"
  using assms
proof (induction h a p v rule: h_baseSet.induct)
  case (1 h nested v)
  then show ?case by simp
next
  case (2 h nested k v)
  then show ?case by (simp add: h_assignValue_frame)
next
  case (3 h nested k k' ks v)
  let ?objValue = "cell_prop (h ! nested) k"
  show ?case
  proof (cases "h_isObject h ?objValue")
    case True
    then obtain b where b: "?objValue = HRef b" "b < length h"
      by (auto simp: h_isObject_def split: hval.splits)
    with cell_prop_vals [of "h ! nested" k] have "HRef b \<in> set (cell_vals (h ! nested))" by auto
    with "3.prems"(1,2,3) have pb: "points_above n h (HRef b)"
      by (auto simp: closed_above_iff)
    let ?h1 = "h_assignValue h nested k ?objValue"
    have h1: "closed_above n ?h1" "take n ?h1 = take n h" "length ?h1 = length h"
      using h_assignValue_frame [OF "3.prems"(1,2) pb] b(1) by auto
    from pb have nb: "n \<le> b" by (simp add: points_above_def)
    have v1: "points_above n ?h1 v"
      using "3.prems"(4) by (rule points_above_mono) (simp add: h1(3))
    have lb: "b < length ?h1" using b(2) h1(3) by simp
    from "3.IH"(1) [OF refl True b(1) h1(1) nb lb v1]
    have "closed_above n (h_baseSet ?h1 b (k' # ks) v)
          \<and> take n (h_baseSet ?h1 b (k' # ks) v) = take n ?h1
          \<and> length ?h1 \<le> length (h_baseSet ?h1 b (k' # ks) v)" .
    with True b h1 show ?thesis by (simp add: Let_def)
  next
    case False
    let ?c = "if index_of_string k' \<noteq> None then HArr [] else HObj []"
    let ?h1 = "h @ [?c]"
    let ?h2 = "h_assignValue ?h1 nested k (HRef (length h))"
    have c1: "closed_above n ?h1"
      by (rule closed_above_snoc [OF "3.prems"(1)]) (simp add: cell_vals_def)
    have nl: "n \<le> length h" using "3.prems"(2,3) by simp
    then have pf: "points_above n ?h1 (HRef (length h))" by (simp add: points_above_def)
    have h2: "closed_above n ?h2" "take n ?h2 = take n ?h1" "length ?h2 = length ?h1"
      using h_assignValue_frame [OF c1 "3.prems"(2) pf] by auto
    have len2: "length ?h2 = Suc (length h)" by (simp add: h_assignValue_def)
    have le2: "length h \<le> length ?h2" by (simp add: h_assignValue_def)
    have v2: "points_above n ?h2 v"
      using "3.prems"(4) le2 by (rule points_above_mono)
    have lt: "length h < length ?h2" by (simp add: h_assignValue_def)
    from "3.IH"(2) [OF refl False refl refl refl h2(1) nl lt v2]
    have "closed_above n (h_baseSet ?h2 (length h) (k' # ks) v)
          \<and> take n (h_baseSet ?h2 (length h) (k' # ks) v) = take n ?h2
          \<and> length ?h2 \<le> length (h_baseSet ?h2 (length h) (k' # ks) v)" .
    with False h2 nl len2 show ?thesis by (simp add: Let_def)
  qed
qed

lemma h_set_frame:
  assumes "closed_above n h" and "points_above n h r"
  shows "closed_above n (h_set h r p HUndef) \<and> take n (h_set h r p HUndef) = take n h
         \<and> length h \<le> length (h_set h r p HUndef)"
proof (cases r)
  case (HRef a)
  show ?thesis
  proof (cases "a < length h")
    case True
    from assms(2) HRef have "n \<le> a" by (simp add: points_above_def)
    from h_baseSet_frame [OF assms(1) this True, of HUndef p] HRef True
    show ?thesis by (simp add: h_set_def points_above_def)
  next
    case False
    with HRef assms show ?thesis by (simp add: h_set_def)
  qed
qed (use assms in \<open>simp_all add: h_set_def\<close>)


lemma list_all_points_mono:
  "list_all (points_above n h) vs \<Longrightarrow> length h \<le> length h' \<Longrightarrow> list_all (points_above n h') vs"
  by (auto simp: list_all_iff intro: points_above_mono)

lemma take_prefix_trans:
  assumes "take a ys = xs" and "take b zs = ys" and "a \<le> b"
  shows "take a zs = xs"
proof -
  have "take a (take b zs) = take a zs" using assms(3) by (simp add: min_absorb1)
  with assms(1,2) show ?thesis by simp
qed

lemma store_frame:
  "closed_above n h \<Longrightarrow> n \<le> length h \<Longrightarrow>
     closed_above n (snd (store t h)) \<and> take (length h) (snd (store t h)) = h
     \<and> length h \<le> length (snd (store t h)) \<and> points_above n (snd (store t h)) (fst (store t h))"
  "closed_above n h \<Longrightarrow> n \<le> length h \<Longrightarrow>
     closed_above n (snd (store_elems xs h)) \<and> take (length h) (snd (store_elems xs h)) = h
     \<and> length h \<le> length (snd (store_elems xs h))
     \<and> list_all (points_above n (snd (store_elems xs h))) (fst (store_elems xs h))"
  "closed_above n h \<Longrightarrow> n \<le> length h \<Longrightarrow>
     closed_above n (snd (store_props kvs h)) \<and> take (length h) (snd (store_props kvs h)) = h
     \<and> length h \<le> length (snd (store_props kvs h))
     \<and> list_all (points_above n (snd (store_props kvs h))) (map snd (fst (store_props kvs h)))"
proof (induction t h and xs h and kvs h rule: store_store_elems_store_props.induct)
  case (6 xs h)
  let ?r = "store_elems xs h"
  from "6.IH" [OF "6.prems"] have ih: "closed_above n (snd ?r)" "take (length h) (snd ?r) = h"
    "length h \<le> length (snd ?r)" "list_all (points_above n (snd ?r)) (fst ?r)" by blast+
  let ?h' = "snd ?r @ [HArr (fst ?r)]"
  have "list_all (points_above n ?h') (fst ?r)"
    using ih(4) by (rule list_all_points_mono) simp
  then have "list_all (points_above n ?h') (cell_vals (HArr (fst ?r)))"
    by (simp add: cell_vals_def)
  with ih(1) have c: "closed_above n ?h'" by (rule closed_above_snoc)
  have t: "take (length h) ?h' = h" using ih(2,3) by simp
  have p: "points_above n ?h' (HRef (length (snd ?r)))"
    using ih(3) "6.prems"(2) by (simp add: points_above_def)
  have l: "length h \<le> length ?h'" using ih(3) by simp
  from c t p l show ?case by (simp only: store.simps Let_def fst_conv snd_conv; simp)
next
  case (7 kvs h)
  let ?r = "store_props kvs h"
  from "7.IH" [OF "7.prems"] have ih: "closed_above n (snd ?r)" "take (length h) (snd ?r) = h"
    "length h \<le> length (snd ?r)" "list_all (points_above n (snd ?r)) (map snd (fst ?r))" by blast+
  let ?h' = "snd ?r @ [HObj (fst ?r)]"
  have "list_all (points_above n ?h') (map snd (fst ?r))"
    using ih(4) by (rule list_all_points_mono) simp
  then have "list_all (points_above n ?h') (cell_vals (HObj (fst ?r)))"
    by (simp add: cell_vals_def)
  with ih(1) have c: "closed_above n ?h'" by (rule closed_above_snoc)
  have t: "take (length h) ?h' = h" using ih(2,3) by simp
  have p: "points_above n ?h' (HRef (length (snd ?r)))"
    using ih(3) "7.prems"(2) by (simp add: points_above_def)
  have l: "length h \<le> length ?h'" using ih(3) by simp
  from c t p l show ?case by (simp only: store.simps Let_def fst_conv snd_conv; simp)
next
  case (9 x xs h)
  let ?r = "store x h"
  from "9.IH"(1) [OF "9.prems"] have a: "closed_above n (snd ?r)" "take (length h) (snd ?r) = h"
    "length h \<le> length (snd ?r)" "points_above n (snd ?r) (fst ?r)" by blast+
  let ?rs = "store_elems xs (snd ?r)"
  from a(3) "9.prems"(2) have nl: "n \<le> length (snd ?r)" by simp
  from "9.IH"(2) [OF refl a(1) nl] have b: "closed_above n (snd ?rs)"
    "take (length (snd ?r)) (snd ?rs) = snd ?r" "length (snd ?r) \<le> length (snd ?rs)"
    "list_all (points_above n (snd ?rs)) (fst ?rs)" by blast+
  have t: "take (length h) (snd ?rs) = h" using a(2) b(2) a(3) by (rule take_prefix_trans)
  have p: "points_above n (snd ?rs) (fst ?r)" using a(4) b(3) by (rule points_above_mono)
  have l: "length h \<le> length (snd ?rs)" using a(3) b(3) by simp
  from b(1) t l p b(4) show ?case
    by (simp only: store_elems.simps Let_def fst_conv snd_conv; simp)
next
  case (11 k x kvs h)
  let ?r = "store x h"
  from "11.IH"(1) [OF "11.prems"] have a: "closed_above n (snd ?r)" "take (length h) (snd ?r) = h"
    "length h \<le> length (snd ?r)" "points_above n (snd ?r) (fst ?r)" by blast+
  let ?rs = "store_props kvs (snd ?r)"
  from a(3) "11.prems"(2) have nl: "n \<le> length (snd ?r)" by simp
  from "11.IH"(2) [OF refl a(1) nl] have b: "closed_above n (snd ?rs)"
    "take (length (snd ?r)) (snd ?rs) = snd ?r" "length (snd ?r) \<le> length (snd ?rs)"
    "list_all (points_above n (snd ?rs)) (map snd (fst ?rs))" by blast+
  have t: "take (length h) (snd ?rs) = h" using a(2) b(2) a(3) by (rule take_prefix_trans)
  have p: "points_above n (snd ?rs) (fst ?r)" using a(4) b(3) by (rule points_above_mono)
  have l: "length h \<le> length (snd ?rs)" using a(3) b(3) by simp
  from b(1) t l p b(4) show ?case
    by (simp only: store_props.simps Let_def fst_conv snd_conv; simp)
qed (simp_all add: points_above_def)

lemma h_pruneData_paths_frame:
  assumes "closed_above n h" and "points_above n h r"
  shows "closed_above n (fst (h_pruneData_paths cfg d ctx dep r h paths))
       \<and> take n (fst (h_pruneData_paths cfg d ctx dep r h paths)) = take n h
       \<and> length h \<le> length (fst (h_pruneData_paths cfg d ctx dep r h paths))"
  using assms
proof (induction paths arbitrary: h)
  case Nil
  then show ?case by simp
next
  case (Cons path paths)
  show ?case
  proof (cases "preconditionsMet (getConfigNodeByPath cfg dep) (read_tree h d) ctx (TArr path)")
    case (Inl e)
    with Cons.prems show ?thesis by simp
  next
    case (Inr met)
    let ?h1 = "if \<not> truthy met then h_set h r path HUndef else h"
    from h_set_frame [OF Cons.prems] Cons.prems(1)
    have h1: "closed_above n ?h1" "take n ?h1 = take n h" "length h \<le> length ?h1" by auto
    have "points_above n ?h1 r" using Cons.prems(2) h1(3) by (rule points_above_mono)
    from Cons.IH [OF h1(1) this] h1(2,3) Inr show ?thesis by simp
  qed
qed

lemma h_pruneData_deps_frame:
  assumes "closed_above n h" and "points_above n h r"
  shows "closed_above n (fst (h_pruneData_deps cfg d ctx r h deps))
       \<and> take n (fst (h_pruneData_deps cfg d ctx r h deps)) = take n h
       \<and> length h \<le> length (fst (h_pruneData_deps cfg d ctx r h deps))"
  using assms
proof (induction deps arbitrary: h)
  case Nil
  then show ?case by simp
next
  case (Cons dep deps)
  let ?step = "h_pruneData_paths cfg d ctx dep r h (getDataPathsForRefPath dep (read_tree h d))"
  from h_pruneData_paths_frame [OF Cons.prems]
  have h1: "closed_above n (fst ?step)" "take n (fst ?step) = take n h"
    "length h \<le> length (fst ?step)" by auto
  have r1: "points_above n (fst ?step) r" using Cons.prems(2) h1(3) by (rule points_above_mono)
  show ?case
  proof (cases "snd ?step")
    case None
    then have "h_pruneData_deps cfg d ctx r h (dep # deps)
               = h_pruneData_deps cfg d ctx r (fst ?step) deps"
      by (cases ?step) simp
    with Cons.IH [OF h1(1) r1] h1(2,3) show ?thesis by simp
  next
    case (Some e)
    then have "h_pruneData_deps cfg d ctx r h (dep # deps) = (fst ?step, Some e)"
      by (cases ?step) simp
    with h1 show ?thesis by simp
  qed
qed

lemma closed_above_length: "closed_above (length h) h"
  by (simp add: closed_above_def)

lemma h_pruneData_frame:
  "take (length h) (fst (h_pruneData d h cfg depOrder ctx)) = h"
proof -
  let ?c = "h_cloneDeep d h"
  from store_frame(1) [OF closed_above_length order_refl, of h "read_tree h d"]
  have c: "closed_above (length h) (snd ?c)" "take (length h) (snd ?c) = h"
    "points_above (length h) (snd ?c) (fst ?c)"
    by (simp_all add: h_cloneDeep_def)
  from h_pruneData_deps_frame [OF c(1,3)] c(2)
  show ?thesis by (simp add: h_pruneData_def Let_def)
qed


lemma store_prefix:
  "take (length h) (snd (store t h)) = h \<and> length h \<le> length (snd (store t h))"
  "take (length h) (snd (store_elems xs h)) = h \<and> length h \<le> length (snd (store_elems xs h))"
  "take (length h) (snd (store_props kvs h)) = h \<and> length h \<le> length (snd (store_props kvs h))"
  using store_frame [OF closed_above_length order_refl, of h] by auto

lemma extends_length: "take (length h1) h2 = h1 \<Longrightarrow> length h1 \<le> length h2"
proof -
  assume "take (length h1) h2 = h1"
  then have "length (take (length h1) h2) = length h1" by simp
  then show ?thesis by (simp add: min_def split: if_splits)
qed

lemma extends_trans:
  assumes "take (length h1) h2 = h1" and "take (length h2) h3 = h2"
  shows "take (length h1) h3 = h1"
  using assms(1,2) extends_length [OF assms(1)] by (rule take_prefix_trans)

lemma snoc_prefix:
  assumes "take (Suc (length xs)) h2 = xs @ [c]"
  shows "length xs < length h2" and "h2 ! length xs = c" and "take (length xs) h2 = xs"
proof -
  from assms have "length (take (Suc (length xs)) h2) = Suc (length xs)" by simp
  then show len: "length xs < length h2" by (simp add: min_def split: if_splits)
  have "take (Suc (length xs)) h2 ! length xs = h2 ! length xs" by simp
  with assms show "h2 ! length xs = c" by simp
  have "take (length xs) (take (Suc (length xs)) h2) = take (length xs) h2"
    by (simp add: min_absorb1)
  with assms show "take (length xs) h2 = xs" by simp
qed

lemma load_store:
  "take (length (snd (store t h))) h2 = snd (store t h) \<Longrightarrow> length (snd (store t h)) \<le> b
     \<Longrightarrow> load h2 b (fst (store t h)) = t"
  "take (length (snd (store_elems xs h))) h2 = snd (store_elems xs h)
     \<Longrightarrow> length (snd (store_elems xs h)) \<le> b
     \<Longrightarrow> map (load h2 b) (fst (store_elems xs h)) = xs"
  "take (length (snd (store_props kvs h))) h2 = snd (store_props kvs h)
     \<Longrightarrow> length (snd (store_props kvs h)) \<le> b
     \<Longrightarrow> map (\<lambda>kv. (fst kv, load h2 b (snd kv))) (fst (store_props kvs h)) = kvs"
proof (induction t h and xs h and kvs h arbitrary: h2 b and h2 b and h2 b
       rule: store_store_elems_store_props.induct)
  case (6 xs h)
  let ?r = "store_elems xs h"
  let ?a = "length (snd ?r)"
  from "6.prems" have ext: "take (Suc ?a) h2 = snd ?r @ [HArr (fst ?r)]" and b: "?a < b"
    by (simp_all add: Let_def)
  from snoc_prefix [OF ext] have len: "?a < length h2" and cell: "h2 ! ?a = HArr (fst ?r)"
    and pre: "take ?a h2 = snd ?r" by blast+
  from "6.IH" [OF pre order_refl] have "map (load h2 ?a) (fst ?r) = xs" .
  with b len cell show ?case by (simp add: Let_def)
next
  case (7 kvs h)
  let ?r = "store_props kvs h"
  let ?a = "length (snd ?r)"
  from "7.prems" have ext: "take (Suc ?a) h2 = snd ?r @ [HObj (fst ?r)]" and b: "?a < b"
    by (simp_all add: Let_def)
  from snoc_prefix [OF ext] have len: "?a < length h2" and cell: "h2 ! ?a = HObj (fst ?r)"
    and pre: "take ?a h2 = snd ?r" by blast+
  from "7.IH" [OF pre order_refl] have "map (\<lambda>kv. (fst kv, load h2 ?a (snd kv))) (fst ?r) = kvs" .
  with b len cell show ?case by (simp add: Let_def)
next
  case (9 x xs h)
  let ?r = "store x h"
  let ?rs = "store_elems xs (snd ?r)"
  from "9.prems" have ext: "take (length (snd ?rs)) h2 = snd ?rs" and b: "length (snd ?rs) \<le> b"
    by (simp_all add: Let_def)
  from store_prefix(2) [of "snd ?r" xs] have pre: "take (length (snd ?r)) (snd ?rs) = snd ?r"
    "length (snd ?r) \<le> length (snd ?rs)" by auto
  have ext1: "take (length (snd ?r)) h2 = snd ?r" using pre(1) ext by (rule extends_trans)
  from "9.IH"(1) [OF ext1] pre(2) b have "load h2 b (fst ?r) = x" by simp
  moreover from "9.IH"(2) [OF refl ext b] have "map (load h2 b) (fst ?rs) = xs" .
  ultimately show ?case by (simp add: Let_def)
next
  case (11 k x kvs h)
  let ?r = "store x h"
  let ?rs = "store_props kvs (snd ?r)"
  from "11.prems" have ext: "take (length (snd ?rs)) h2 = snd ?rs" and b: "length (snd ?rs) \<le> b"
    by (simp_all add: Let_def)
  from store_prefix(3) [of "snd ?r" kvs] have pre: "take (length (snd ?r)) (snd ?rs) = snd ?r"
    "length (snd ?r) \<le> length (snd ?rs)" by auto
  have ext1: "take (length (snd ?r)) h2 = snd ?r" using pre(1) ext by (rule extends_trans)
  from "11.IH"(1) [OF ext1] pre(2) b have "load h2 b (fst ?r) = x" by simp
  moreover from "11.IH"(2) [OF refl ext b]
  have "map (\<lambda>kv. (fst kv, load h2 b (snd kv))) (fst ?rs) = kvs" .
  ultimately show ?case by (simp add: Let_def)
qed simp_all

lemma read_tree_store:
  assumes "take (length (snd (store t h))) h2 = snd (store t h)"
  shows "read_tree h2 (fst (store t h)) = t"
  unfolding read_tree_def
  by (rule load_store(1) [OF assms]) (rule extends_length [OF assms])

lemma h_paths_refine:
  assumes "closed_above (length (snd (store t h0))) h"
    and "points_above (length (snd (store t h0))) h r"
    and "take (length (snd (store t h0))) h = snd (store t h0)"
  shows "snd (h_pruneData_paths cfg (fst (store t h0)) ctx dep r h paths)
           = (case unmet_paths cfg t ctx dep paths of Inl e \<Rightarrow> Some e | Inr ps \<Rightarrow> None)
       \<and> (\<forall>ps. unmet_paths cfg t ctx dep paths = Inr ps \<longrightarrow>
              fst (h_pruneData_paths cfg (fst (store t h0)) ctx dep r h paths)
                = foldl (\<lambda>h p. h_set h r p HUndef) h ps)"
  using assms
proof (induction paths arbitrary: h)
  case Nil
  show ?case by simp
next
  case (Cons path paths)
  let ?n = "length (snd (store t h0))"
  have rd: "read_tree h (fst (store t h0)) = t"
    by (rule read_tree_store) (rule Cons.prems(3))
  show ?case
  proof (cases "preconditionsMet (getConfigNodeByPath cfg dep) t ctx (TArr path)")
    case (Inl e)
    then show ?thesis by (simp add: rd)
  next
    case (Inr met)
    let ?h1 = "if \<not> truthy met then h_set h r path HUndef else h"
    from h_set_frame [OF Cons.prems(1,2), of path] Cons.prems(1)
    have h1: "closed_above ?n ?h1" "take ?n ?h1 = take ?n h" "length h \<le> length ?h1" by auto
    have r1: "points_above ?n ?h1 r" using Cons.prems(2) h1(3) by (rule points_above_mono)
    have e1: "take ?n ?h1 = snd (store t h0)" using h1(2) Cons.prems(3) by simp
    from Cons.IH [OF h1(1) r1 e1] Inr show ?thesis
      by (auto simp: rd split: sum.splits)
  qed
qed

lemma h_paths_invariant:
  assumes "closed_above n h" and "points_above n h r" and "take n h = h1"
  shows "closed_above n (fst (h_pruneData_paths cfg d ctx dep r h paths))
       \<and> points_above n (fst (h_pruneData_paths cfg d ctx dep r h paths)) r
       \<and> take n (fst (h_pruneData_paths cfg d ctx dep r h paths)) = h1"
proof -
  from h_pruneData_paths_frame [OF assms(1,2), of cfg d ctx dep paths]
  have f: "closed_above n (fst (h_pruneData_paths cfg d ctx dep r h paths))"
    "take n (fst (h_pruneData_paths cfg d ctx dep r h paths)) = take n h"
    "length h \<le> length (fst (h_pruneData_paths cfg d ctx dep r h paths))" by blast+
  from assms(2) f(3) have "points_above n (fst (h_pruneData_paths cfg d ctx dep r h paths)) r"
    by (rule points_above_mono)
  with f assms(3) show ?thesis by simp
qed

lemma h_deps_refine:
  assumes "closed_above (length (snd (store t h0))) h"
    and "points_above (length (snd (store t h0))) h r"
    and "take (length (snd (store t h0))) h = snd (store t h0)"
  shows "snd (h_pruneData_deps cfg (fst (store t h0)) ctx r h deps)
           = (case pruning_decisions cfg t ctx deps of Inl e \<Rightarrow> Some e | Inr ps \<Rightarrow> None)
       \<and> (\<forall>ps. pruning_decisions cfg t ctx deps = Inr ps \<longrightarrow>
              fst (h_pruneData_deps cfg (fst (store t h0)) ctx r h deps)
                = foldl (\<lambda>h p. h_set h r p HUndef) h ps)"
  using assms
proof (induction deps arbitrary: h)
  case Nil
  show ?case by simp
next
  case (Cons dep deps)
  let ?n = "length (snd (store t h0))"
  let ?d = "fst (store t h0)"
  have rd: "read_tree h ?d = t"
    by (rule read_tree_store) (rule Cons.prems(3))
  let ?paths = "getDataPathsForRefPath dep t"
  let ?step = "h_pruneData_paths cfg ?d ctx dep r h ?paths"
  from h_paths_refine [OF Cons.prems, of cfg ctx dep ?paths]
  have st: "snd ?step = (case unmet_paths cfg t ctx dep ?paths of Inl e \<Rightarrow> Some e | Inr ps \<Rightarrow> None)"
    and hp: "\<forall>ps. unmet_paths cfg t ctx dep ?paths = Inr ps \<longrightarrow>
               fst ?step = foldl (\<lambda>h p. h_set h r p HUndef) h ps" by blast+
  from h_paths_invariant [OF Cons.prems, of cfg ?d ctx dep ?paths]
  have inv: "closed_above ?n (fst ?step)" "points_above ?n (fst ?step) r"
    "take ?n (fst ?step) = snd (store t h0)" by blast+
  show ?case
  proof (cases "unmet_paths cfg t ctx dep ?paths")
    case (Inl e)
    with st have "snd ?step = Some e" by simp
    then have "h_pruneData_deps cfg ?d ctx r h (dep # deps) = (fst ?step, Some e)"
      by (cases ?step) (simp add: rd)
    with Inl show ?thesis by simp
  next
    case (Inr ps)
    with st have "snd ?step = None" by simp
    then have unfold: "h_pruneData_deps cfg ?d ctx r h (dep # deps)
               = h_pruneData_deps cfg ?d ctx r (fst ?step) deps"
      by (cases ?step) (simp add: rd)
    from hp Inr have heap: "fst ?step = foldl (\<lambda>h p. h_set h r p HUndef) h ps" by simp
    from Cons.IH [OF inv] unfold Inr heap show ?thesis
      by (auto split: sum.splits)
  qed
qed

lemma h_pruneData_refine:
  "snd (h_pruneData (fst (store t h)) (snd (store t h)) cfg order ctx)
     = (case pruneData t cfg order ctx of
          Inl e \<Rightarrow> Inl e
        | Inr pruned \<Rightarrow> Inr (fst (h_cloneDeep (fst (store t h)) (snd (store t h)))))"
proof -
  let ?d = "fst (store t h)" and ?h1 = "snd (store t h)"
  let ?c = "h_cloneDeep ?d ?h1"
  from store_frame(1) [OF closed_above_length order_refl, of ?h1 "read_tree ?h1 ?d"]
  have c: "closed_above (length ?h1) (snd ?c)" "take (length ?h1) (snd ?c) = ?h1"
    "points_above (length ?h1) (snd ?c) (fst ?c)"
    by (simp_all add: h_cloneDeep_def)
  from h_deps_refine [OF c(1,3,2), of cfg ctx order]
  have "snd (h_pruneData_deps cfg ?d ctx (fst ?c) (snd ?c) order)
           = (case pruning_decisions cfg t ctx order of Inl e \<Rightarrow> Some e | Inr ps \<Rightarrow> None)"
    by blast
  then show ?thesis
    by (simp add: h_pruneData_def Let_def pruneData_def cloneDeep_def pruneData_deps_decisions
        split: sum.splits)
qed

text \<open>
  C8. Whatever the heap and the value passed as \<open>data\<close>, every cell that existed before
  the call is the same after it: the copy made by \<open>cloneDeep\<close> and the containers that
  \<open>set\<close> creates are new cells, and every write goes to a new cell. So for every data
  tree, laid out anywhere in the heap, the caller's value reads as the same tree before
  and after the call; and the run on the heap succeeds or throws as \<open>pruneData\<close> does on
  that tree, returning the copy.
\<close>

theorem getWorkflowState_keeps_caller_data:
  "take (length h) (getWorkflowState_heap d h cfg order ctx) = h
   \<and> read_tree (snd (store t h)) (fst (store t h)) = t
   \<and> read_tree (getWorkflowState_heap (fst (store t h)) (snd (store t h)) cfg order ctx)
        (fst (store t h)) = t
   \<and> snd (h_pruneData (fst (store t h)) (snd (store t h)) cfg order ctx)
       = (case pruneData t cfg order ctx of
            Inl e \<Rightarrow> Inl e
          | Inr pruned \<Rightarrow> Inr (fst (h_cloneDeep (fst (store t h)) (snd (store t h)))))"
proof -
  have frame: "take (length h) (getWorkflowState_heap d h cfg order ctx) = h" for d h
    by (simp add: getWorkflowState_heap_def h_pruneData_frame)
  have before: "read_tree (snd (store t h)) (fst (store t h)) = t"
    by (rule read_tree_store) simp
  have after: "read_tree (getWorkflowState_heap (fst (store t h)) (snd (store t h)) cfg order ctx)
        (fst (store t h)) = t"
    by (rule read_tree_store) (rule frame)
  from frame before after h_pruneData_refine [of t h cfg order ctx] show ?thesis by simp
qed

end
